theory Spec2Isabelle
  imports Complex_Main
begin

section \<open>Data model\<close>

text \<open>
  The two notebooks define vertex behaviours (\<open>EpidemicVertex\<close>, \<open>SocialVertex\<close>) and
  statistics functions on top of the \<open>pregel\<close> module.  Python integers are \<open>int\<close>,
  Python floats are idealised as \<open>rat\<close>, strings are \<open>string\<close>, exceptions are values of
  \<open>error\<close>.
\<close>

datatype error = ValueError | IndexError | ZeroDivisionError | UpdateRuleError

text \<open>
  A message is the triple \<open>(v, w, msg)\<close> the update rules build and unpack: a vertex
  (referred to by its id), a weight and a payload.
\<close>

type_synonym message = "int \<times> int \<times> string"

text \<open>
  Modelled from the spec: the class \<open>Vertex\<close> of the module \<open>pregel\<close>, which the
  notebooks import and which is not among the source files.  The fields are the ones
  the data model of the spec lists, under the attribute names the notebooks use
  (\<open>self.id\<close>, \<open>self.value\<close>, \<open>self.out_vertices\<close>, \<open>self.incoming_messages\<close>,
  \<open>self.outgoing_messages\<close>, \<open>self.active\<close>, \<open>self.superstep\<close>).  References to
  other vertex objects are their ids.
\<close>

record 'a vertex =
  vertex_id :: int
  vertex_value :: 'a
  out_vertices :: "int list"
  incoming_messages :: "message list"
  outgoing_messages :: "message list"
  active :: bool
  superstep :: int

text \<open>
  \<open>random.random()\<close> reads and advances the process-wide generator.  The generator
  state is the infinite sequence of the draws still to come; a call returns the first
  and leaves the rest.
\<close>

type_synonym rng = "nat \<Rightarrow> rat"

definition random_random :: "rng \<Rightarrow> rat \<times> rng" where
  "random_random g = (g 0, \<lambda>n. g (Suc n))"

text \<open>Every draw of \<open>random.random()\<close> lies in the half-open interval from 0 to 1.\<close>

definition unit_draws :: "rng \<Rightarrow> bool" where
  "unit_draws g = (\<forall>n. 0 \<le> g n \<and> g n < 1)"

text \<open>The generator whose every draw is \<open>c\<close>: a fixed input for concrete runs.\<close>

definition const_rng :: "rat \<Rightarrow> rng" where
  "const_rng c = (\<lambda>n. c)"

text \<open>Python's \<open>x / float(n)\<close>.\<close>

definition truediv :: "int \<Rightarrow> nat \<Rightarrow> error + rat" where
  "truediv x n = (if n = 0 then Inl ZeroDivisionError else Inr (of_int x / of_nat n))"

text \<open>Python's \<open>sum(cond(v) for v in vertices)\<close>: booleans add up as 0 and 1.\<close>

definition sum_bool :: "('a \<Rightarrow> bool) \<Rightarrow> 'a list \<Rightarrow> int" where
  "sum_bool c xs = sum_list (map (\<lambda>x. if c x then 1 else 0) xs)"

section \<open>The epidemic notebook\<close>

definition epidemic_stats :: "int vertex list \<Rightarrow> error + (int \<times> rat \<times> rat)" where
  "epidemic_stats vertices =
     (case vertices of
        [] \<Rightarrow> Inl IndexError
      | v0 # _ \<Rightarrow>
          (let n = length vertices in
           case truediv (sum_bool (\<lambda>v. vertex_value v \<ge> 0) vertices) n of
             Inl e \<Rightarrow> Inl e
           | Inr palive \<Rightarrow>
               (case truediv (sum_bool (\<lambda>v. vertex_value v > 0) vertices) n of
                  Inl e \<Rightarrow> Inl e
                | Inr pinfected \<Rightarrow> Inr (superstep v0, palive, pinfected))))"

text \<open>
  The loop of a healthy vertex over its incoming messages: one draw per message, and
  the value becomes 1 whenever the draw is below \<open>p\<close>.  The loop has no \<open>break\<close>.
\<close>

fun infect_loop :: "rat \<Rightarrow> message list \<Rightarrow> int \<Rightarrow> rng \<Rightarrow> int \<times> rng" where
  "infect_loop p [] val g = (val, g)"
| "infect_loop p (m # ms) val g =
     (case random_random g of
        (r, g') \<Rightarrow> infect_loop p ms (if r < p then 1 else val) g')"

text \<open>
  \<open>EpidemicVertex.update\<close>.  The globals \<open>i\<close>, \<open>td\<close>, \<open>p\<close> and \<open>nsteps\<close> of the notebook
  are parameters.
\<close>

definition EpidemicVertex_update ::
  "int \<Rightarrow> int \<Rightarrow> rat \<Rightarrow> int \<Rightarrow> int vertex \<Rightarrow> rng \<Rightarrow> int vertex \<times> rng" where
  "EpidemicVertex_update i td p nsteps self g =
     (if superstep self = 0 then
        (if vertex_id self < i then (self\<lparr>vertex_value := 1\<rparr>, g)
         else (self\<lparr>vertex_value := 0\<rparr>, g))
      else if superstep self < nsteps then
        (if vertex_value self = - 1 then (self\<lparr>active := False\<rparr>, g)
         else if vertex_value self > 0 then
           (if vertex_value self \<le> td then
              (self\<lparr>vertex_value := vertex_value self + 1,
                    outgoing_messages := map (\<lambda>v. (v, 1, ''sneeze'')) (out_vertices self)\<rparr>, g)
            else (self\<lparr>vertex_value := - 1, active := False\<rparr>, g))
         else
           (case infect_loop p (incoming_messages self) (vertex_value self) g of
              (val, g') \<Rightarrow> (self\<lparr>vertex_value := val\<rparr>, g')))
      else (self\<lparr>active := False\<rparr>, g))"

section \<open>The social network notebook\<close>

definition social_stats :: "string vertex list \<Rightarrow> error + (int \<times> rat \<times> rat)" where
  "social_stats vertices =
     (case vertices of
        [] \<Rightarrow> Inl IndexError
      | v0 # _ \<Rightarrow>
          (let n = length vertices in
           case truediv (sum_bool (\<lambda>v. vertex_value v = ''F'') vertices) n of
             Inl e \<Rightarrow> Inl e
           | Inr pF \<Rightarrow>
               (case truediv (sum_bool (\<lambda>v. vertex_value v = ''M'') vertices) n of
                  Inl e \<Rightarrow> Inl e
                | Inr pM \<Rightarrow> Inr (superstep v0, pF, pM))))"

text \<open>\<open>switch(f, m)\<close>: a draw is made only when \<open>m > f\<close>.\<close>

definition switch :: "rat \<Rightarrow> int \<Rightarrow> int \<Rightarrow> rng \<Rightarrow> bool \<times> rng" where
  "switch sp f m g =
     (if m > f then
        (case random_random g of (r, g') \<Rightarrow> if r < sp then (True, g') else (False, g'))
      else (False, g))"

text \<open>
  The counting loop of \<open>SocialVertex.update\<close>, with the counters \<open>f\<close> and \<open>m\<close> as
  accumulators; a payload that is neither \<open>"F"\<close> nor \<open>"M"\<close> raises \<open>ValueError\<close>.
\<close>

fun count_loop :: "message list \<Rightarrow> int \<Rightarrow> int \<Rightarrow> error + (int \<times> int)" where
  "count_loop [] f m = Inr (f, m)"
| "count_loop ((v, w, msg) # ms) f m =
     (if msg = ''F'' then count_loop ms (f + 1) m
      else if msg = ''M'' then count_loop ms f (m + 1)
      else Inl ValueError)"

text \<open>
  The list comprehension \<open>[(v,1,self.value) for v in self.out_vertices if random.random() < a]\<close>:
  one draw per neighbour, in order.
\<close>

fun send_loop :: "rat \<Rightarrow> string \<Rightarrow> int list \<Rightarrow> rng \<Rightarrow> message list \<times> rng" where
  "send_loop a val [] g = ([], g)"
| "send_loop a val (v # vs) g =
     (case random_random g of
        (r, g') \<Rightarrow>
          (case send_loop a val vs g' of
             (out, g'') \<Rightarrow> ((if r < a then [(v, 1, val)] else []) @ out, g'')))"

text \<open>
  \<open>SocialVertex.update\<close>.  The globals \<open>nsteps\<close>, \<open>a\<close> and \<open>sp\<close> of the notebook are
  parameters.
\<close>

definition SocialVertex_update ::
  "int \<Rightarrow> rat \<Rightarrow> rat \<Rightarrow> string vertex \<Rightarrow> rng \<Rightarrow> error + (string vertex \<times> rng)" where
  "SocialVertex_update nsteps a sp self g =
     (if superstep self < nsteps then
        (case (if vertex_value self = ''M'' then Inr (self, g)
               else (case count_loop (incoming_messages self) 0 0 of
                       Inl e \<Rightarrow> Inl e
                     | Inr (f, m) \<Rightarrow>
                         (case switch sp f m g of
                            (b, g') \<Rightarrow>
                              Inr (if b then self\<lparr>vertex_value := ''M''\<rparr> else self, g')))) of
           Inl e \<Rightarrow> Inl e
         | Inr (self', g') \<Rightarrow>
             (case send_loop a (vertex_value self') (out_vertices self') g' of
                (out, g'') \<Rightarrow> Inr (self'\<lparr>outgoing_messages := out\<rparr>, g'')))
      else Inr (self\<lparr>active := False\<rparr>, g))"

section \<open>The engine\<close>

text \<open>
  Modelled from the spec: the class \<open>Pregel\<close> of the module \<open>pregel\<close> (constructed in the
  notebooks as \<open>Pregel(vertices, stats_fn=...)\<close>, run with \<open>p.run()\<close>, result \<open>p.data\<close>),
  which is not among the source files.  The definitions below follow the per-round
  contract of the Superstep Coordinator: (1) the active set is the vertices with
  \<open>active\<close> true; (2) if it is empty the run ends and returns the accumulated
  statistics; (3) each active vertex is updated, in the stable order of the vertex
  list; (4) every emitted message is put into the \<open>incoming\<close> buffer of its
  destination for the next round, a vertex that received nothing getting an empty
  buffer; (5) every \<open>outgoing\<close> buffer is cleared; (6) the statistics function, if
  configured, is called on the full vertex list and its result appended to the series;
  (7) the superstep counter of every vertex is incremented; (8) back to (1).  An
  update that raises aborts the run, and so does a message addressed to a vertex that
  does not exist.  The step ceiling is not a parameter of the engine: the notebooks
  pass it through the update rules (\<open>nsteps\<close>).
\<close>

text \<open>Modelled from the spec: steps (1) and (2), whether any vertex is active.\<close>

definition check_active :: "'a vertex list \<Rightarrow> bool" where
  "check_active vertices = list_ex active vertices"

text \<open>
  Modelled from the spec: step (3), the updates of the active vertices of one round, in
  list order, threading the generator; an update that raises aborts the round.
\<close>

fun update_active ::
  "('a vertex \<Rightarrow> rng \<Rightarrow> error + ('a vertex \<times> rng)) \<Rightarrow> 'a vertex list \<Rightarrow> rng
     \<Rightarrow> error + ('a vertex list \<times> rng)" where
  "update_active upd [] g = Inr ([], g)"
| "update_active upd (v # vs) g =
     (if active v then
        (case upd v g of
           Inl e \<Rightarrow> Inl e
         | Inr (v', g') \<Rightarrow>
             (case update_active upd vs g' of
                Inl e \<Rightarrow> Inl e
              | Inr (vs', g'') \<Rightarrow> Inr (v' # vs', g'')))
      else
        (case update_active upd vs g of
           Inl e \<Rightarrow> Inl e
         | Inr (vs', g') \<Rightarrow> Inr (v # vs', g')))"

text \<open>
  Modelled from the spec: step (4), the messages delivered to the vertex with id \<open>u\<close>.
  An emitted message \<open>(destination, weight, payload)\<close> arrives as
  \<open>(source, weight, payload)\<close>, in the order of the emitting vertices.
\<close>

definition inbox :: "'a vertex list \<Rightarrow> int \<Rightarrow> message list" where
  "inbox vertices u =
     concat (map (\<lambda>src. map (\<lambda>(d, w, msg). (vertex_id src, w, msg))
                           (filter (\<lambda>(d, w, msg). d = u) (outgoing_messages src)))
                 vertices)"

text \<open>
  Modelled from the spec: steps (4) and (5), redistribution into the \<open>incoming\<close> buffers
  and clearing of the \<open>outgoing\<close> buffers; a message addressed to an id that no vertex
  has is the update-rule error of the spec.
\<close>

definition redistribute_messages :: "'a vertex list \<Rightarrow> error + 'a vertex list" where
  "redistribute_messages vertices =
     (if list_all (\<lambda>src. list_all (\<lambda>(d, w, msg). d \<in> set (map vertex_id vertices))
                                   (outgoing_messages src)) vertices
      then Inr (map (\<lambda>u. u\<lparr>incoming_messages := inbox vertices (vertex_id u),
                            outgoing_messages := []\<rparr>) vertices)
      else Inl UpdateRuleError)"

text \<open>
  Modelled from the spec: one round, steps (3) to (7), on the vertex list, the generator
  and the series.  The statistics function sees the vertices after redistribution and
  before the superstep counter advances.
\<close>

definition pregel_superstep ::
  "('a vertex \<Rightarrow> rng \<Rightarrow> error + ('a vertex \<times> rng))
     \<Rightarrow> ('a vertex list \<Rightarrow> error + (int \<times> rat \<times> rat)) option
     \<Rightarrow> 'a vertex list \<times> rng \<times> (int \<times> rat \<times> rat) list
     \<Rightarrow> error + ('a vertex list \<times> rng \<times> (int \<times> rat \<times> rat) list)" where
  "pregel_superstep upd stats_fn st =
     (case st of (vertices, g, data) \<Rightarrow>
        (case update_active upd vertices g of
           Inl e \<Rightarrow> Inl e
         | Inr (vs1, g1) \<Rightarrow>
             (case redistribute_messages vs1 of
                Inl e \<Rightarrow> Inl e
              | Inr vs2 \<Rightarrow>
                  (case (case stats_fn of
                           None \<Rightarrow> Inr data
                         | Some f \<Rightarrow> (case f vs2 of Inl e \<Rightarrow> Inl e | Inr t \<Rightarrow> Inr (data @ [t]))) of
                     Inl e \<Rightarrow> Inl e
                   | Inr data' \<Rightarrow>
                       Inr (map (\<lambda>v. v\<lparr>superstep := superstep v + 1\<rparr>) vs2, g1, data')))))"

text \<open>
  Modelled from the spec: the run loop, steps (1), (2) and (8).  It ends only when no
  vertex is active, so for an arbitrary update rule it need not return: \<open>None\<close> is the
  run that never ends.
\<close>

partial_function (option) pregel_run ::
  "('a vertex \<Rightarrow> rng \<Rightarrow> error + ('a vertex \<times> rng))
     \<Rightarrow> ('a vertex list \<Rightarrow> error + (int \<times> rat \<times> rat)) option
     \<Rightarrow> 'a vertex list \<times> rng \<times> (int \<times> rat \<times> rat) list
     \<Rightarrow> (error + ('a vertex list \<times> rng \<times> (int \<times> rat \<times> rat) list)) option" where
  "pregel_run upd stats_fn st =
     (if check_active (fst st) then
        (case pregel_superstep upd stats_fn st of
           Inl e \<Rightarrow> Some (Inl e)
         | Inr st' \<Rightarrow> pregel_run upd stats_fn st')
      else Some (Inr st))"

declare pregel_run.simps [code]

text \<open>
  Modelled from the spec: the state of the run loop after at most \<open>k\<close> rounds, that is
  the same loop stopped after \<open>k\<close> iterations.  It is used to speak about the vertices
  at the end of a given round.
\<close>

fun pregel_rounds ::
  "nat \<Rightarrow> ('a vertex \<Rightarrow> rng \<Rightarrow> error + ('a vertex \<times> rng))
     \<Rightarrow> ('a vertex list \<Rightarrow> error + (int \<times> rat \<times> rat)) option
     \<Rightarrow> 'a vertex list \<times> rng \<times> (int \<times> rat \<times> rat) list
     \<Rightarrow> error + ('a vertex list \<times> rng \<times> (int \<times> rat \<times> rat) list)" where
  "pregel_rounds 0 upd stats_fn st = Inr st"
| "pregel_rounds (Suc k) upd stats_fn st =
     (if check_active (fst st) then
        (case pregel_superstep upd stats_fn st of
           Inl e \<Rightarrow> Inl e
         | Inr st' \<Rightarrow> pregel_rounds k upd stats_fn st')
      else Inr st)"

text \<open>
  The update rule of the epidemic notebook in the shape the engine takes: it raises
  nothing.
\<close>

definition epidemic_upd ::
  "int \<Rightarrow> int \<Rightarrow> rat \<Rightarrow> int \<Rightarrow> int vertex \<Rightarrow> rng \<Rightarrow> error + (int vertex \<times> rng)" where
  "epidemic_upd i td p nsteps self g = Inr (EpidemicVertex_update i td p nsteps self g)"

text \<open>
  \<open>epidemic_pregel\<close> of the notebook: \<open>p = Pregel(vertices, stats_fn=epidemic_stats)\<close>,
  \<open>p.run()\<close>, \<open>return p.data\<close>.
\<close>

definition epidemic_pregel ::
  "int \<Rightarrow> int \<Rightarrow> rat \<Rightarrow> int \<Rightarrow> int vertex list \<Rightarrow> rng
     \<Rightarrow> (error + (int \<times> rat \<times> rat) list) option" where
  "epidemic_pregel i td p nsteps vertices g =
     (case pregel_run (epidemic_upd i td p nsteps) (Some epidemic_stats) (vertices, g, []) of
        None \<Rightarrow> None
      | Some (Inl e) \<Rightarrow> Some (Inl e)
      | Some (Inr (vs, g', data)) \<Rightarrow> Some (Inr data))"

text \<open>
  The last lines of \<open>social_main\<close>: \<open>p = Pregel(vertices, stats_fn=social_stats)\<close>,
  \<open>p.run()\<close>, \<open>return p.data\<close>.
\<close>

definition social_pregel ::
  "int \<Rightarrow> rat \<Rightarrow> rat \<Rightarrow> string vertex list \<Rightarrow> rng
     \<Rightarrow> (error + (int \<times> rat \<times> rat) list) option" where
  "social_pregel nsteps a sp vertices g =
     (case pregel_run (SocialVertex_update nsteps a sp) (Some social_stats) (vertices, g, []) of
        None \<Rightarrow> None
      | Some (Inl e) \<Rightarrow> Some (Inl e)
      | Some (Inr (vs, g', data)) \<Rightarrow> Some (Inr data))"

section \<open>Uniform draws on a grid\<close>

text \<open>
  To speak about probabilities, the draws are taken uniform on the grid
  \<open>0, 1/N, \<dots>, (N-1)/N\<close> (the floats \<open>random.random()\<close> returns form such a grid):
  \<open>grid_rng N ds\<close> is the generator whose first draws are the grid points numbered by
  \<open>ds\<close>.  A probability is then the share of the equally likely lists \<open>ds\<close> with a given
  outcome.
\<close>

definition grid_rng :: "nat \<Rightarrow> nat list \<Rightarrow> rng" where
  "grid_rng N ds = (\<lambda>n. if n < length ds then of_nat (ds ! n) / of_nat N else 0)"

section \<open>Counting payloads\<close>

text \<open>
  The number of messages of a list that carry a given payload: what the counters \<open>f\<close>
  and \<open>m\<close> of \<open>SocialVertex.update\<close> stand for.
\<close>

definition payload_count :: "string \<Rightarrow> message list \<Rightarrow> int" where
  "payload_count x ms = int (length (filter (\<lambda>(v, w, msg). msg = x) ms))"

text \<open>A message list whose payloads are all \<open>"F"\<close> or \<open>"M"\<close>.\<close>

definition labels_only :: "message list \<Rightarrow> bool" where
  "labels_only ms = list_all (\<lambda>(v, w, msg). msg = ''F'' \<or> msg = ''M'') ms"

text \<open>
  A social vertex as the notebook builds and maintains it: its value is one of the two
  labels, and so is every payload in its two message buffers (in particular when the
  buffers are empty, as on a freshly constructed vertex).
\<close>

definition social_wf :: "string vertex \<Rightarrow> bool" where
  "social_wf v =
     ((vertex_value v = ''F'' \<or> vertex_value v = ''M'') \<and>
      labels_only (incoming_messages v) \<and> labels_only (outgoing_messages v))"

section \<open>The statistics series of an epidemic run\<close>

text \<open>
  The second component of every tuple of the series (\<open>palive\<close> in \<open>epidemic_stats\<close>), and
  what it means for such a sequence to be non-increasing from each entry to every later
  one.
\<close>

definition palive_series :: "(int \<times> rat \<times> rat) list \<Rightarrow> rat list" where
  "palive_series data = map (\<lambda>(step, palive, pinfected). palive) data"

definition non_increasing :: "rat list \<Rightarrow> bool" where
  "non_increasing xs = sorted_wrt (\<lambda>x y. y \<le> x) xs"

text \<open>The fraction of the vertices of a list whose value is at least 0.\<close>

definition alive_fraction :: "int vertex list \<Rightarrow> rat" where
  "alive_fraction vs = of_int (sum_bool (\<lambda>v. 0 \<le> vertex_value v) vs) / of_nat (length vs)"

text \<open>
  What holds of the state of an epidemic run between rounds: either no round has been
  made (superstep 0, empty series), or all vertices are at one superstep from 1 on,
  every active vertex has a value from \<open>-1\<close> on, the series is non-increasing and none
  of its entries is below the current alive fraction.
\<close>

definition epidemic_inv :: "int vertex list \<times> rng \<times> (int \<times> rat \<times> rat) list \<Rightarrow> bool" where
  "epidemic_inv st =
     (case st of (vs, g, data) \<Rightarrow>
        ((\<forall>v\<in>set vs. superstep v = 0) \<and> data = []) \<or>
        ((\<exists>s. 1 \<le> s \<and> (\<forall>v\<in>set vs. superstep v = s)) \<and>
         (\<forall>v\<in>set vs. active v \<longrightarrow> - 1 \<le> vertex_value v) \<and>
         non_increasing (palive_series data) \<and>
         (\<forall>x\<in>set (palive_series data). alive_fraction vs \<le> x)))"

section \<open>The statistics functions as programs on the vertex objects\<close>

text \<open>
  The vertices a statistics function receives are objects: a Python list of references
  into the heap, where an assignment to an attribute would be seen by the engine.  To
  state what the functions do to the objects, they are written once more statement by
  statement as programs that take the heap and return it with their result (or the
  exception raised).  The heap maps an address to the vertex object stored there.
\<close>

type_synonym 'a heap = "nat \<Rightarrow> 'a vertex"

type_synonym ('a, 'r) prog = "'a heap \<Rightarrow> (error + 'r) \<times> 'a heap"

definition h_return :: "'r \<Rightarrow> ('a, 'r) prog" where
  "h_return x h = (Inr x, h)"

definition h_raise :: "error \<Rightarrow> ('a, 'r) prog" where
  "h_raise e h = (Inl e, h)"

text \<open>Sequencing: an exception in the first part skips the second.\<close>

definition h_bind :: "('a, 'r) prog \<Rightarrow> ('r \<Rightarrow> ('a, 's) prog) \<Rightarrow> ('a, 's) prog" where
  "h_bind m f h = (case m h of (Inl e, h') \<Rightarrow> (Inl e, h') | (Inr x, h') \<Rightarrow> f x h')"

text \<open>Reading an attribute of the object at an address: \<open>v.value\<close>, \<open>v.superstep\<close>.\<close>

definition h_read :: "('a vertex \<Rightarrow> 'r) \<Rightarrow> nat \<Rightarrow> ('a, 'r) prog" where
  "h_read attr v h = (Inr (attr (h v)), h)"

text \<open>Assigning to an attribute, as the update rules do (\<open>self.active = False\<close>).\<close>

definition h_write :: "('a vertex \<Rightarrow> 'a vertex) \<Rightarrow> nat \<Rightarrow> ('a, unit) prog" where
  "h_write assign v h = (Inr (), h(v := assign (h v)))"

text \<open>\<open>vertices[0]\<close> on the list of references.\<close>

definition h_first :: "nat list \<Rightarrow> ('a, nat) prog" where
  "h_first vertices = (case vertices of [] \<Rightarrow> h_raise IndexError | v0 # _ \<Rightarrow> h_return v0)"

text \<open>\<open>x / float(n)\<close>.\<close>

definition h_truediv :: "int \<Rightarrow> nat \<Rightarrow> ('a, rat) prog" where
  "h_truediv x n = (case truediv x n of Inl e \<Rightarrow> h_raise e | Inr q \<Rightarrow> h_return q)"

text \<open>
  \<open>sum(cond(v.value) for v in vertices)\<close>: the generator expression reads the value of
  each vertex in turn.
\<close>

fun h_sum :: "('a \<Rightarrow> bool) \<Rightarrow> nat list \<Rightarrow> ('a, int) prog" where
  "h_sum cond [] = h_return 0"
| "h_sum cond (v # vs) =
     h_bind (h_read vertex_value v) (\<lambda>x.
     h_bind (h_sum cond vs) (\<lambda>s.
     h_return ((if cond x then 1 else 0) + s)))"

text \<open>\<open>epidemic_stats\<close>, statement by statement.\<close>

definition epidemic_stats_h :: "nat list \<Rightarrow> (int, int \<times> rat \<times> rat) prog" where
  "epidemic_stats_h vertices =
     h_bind (h_first vertices) (\<lambda>v0.
     h_bind (h_read superstep v0) (\<lambda>superstep.
     h_bind (h_sum (\<lambda>x. x \<ge> 0) vertices) (\<lambda>alive.
     h_bind (h_truediv alive (length vertices)) (\<lambda>palive.
     h_bind (h_sum (\<lambda>x. x > 0) vertices) (\<lambda>infected.
     h_bind (h_truediv infected (length vertices)) (\<lambda>pinfected.
     h_return (superstep, palive, pinfected)))))))"

text \<open>\<open>social_stats\<close>, statement by statement.\<close>

definition social_stats_h :: "nat list \<Rightarrow> (string, int \<times> rat \<times> rat) prog" where
  "social_stats_h vertices =
     h_bind (h_first vertices) (\<lambda>v0.
     h_bind (h_read superstep v0) (\<lambda>superstep.
     h_bind (h_sum (\<lambda>x. x = ''F'') vertices) (\<lambda>onF.
     h_bind (h_truediv onF (length vertices)) (\<lambda>pF.
     h_bind (h_sum (\<lambda>x. x = ''M'') vertices) (\<lambda>onM.
     h_bind (h_truediv onM (length vertices)) (\<lambda>pM.
     h_return (superstep, pF, pM)))))))"

section \<open>Statistics on the empty and the non-empty vertex list\<close>

lemma truediv_pos: "0 < n \<Longrightarrow> truediv x n = Inr (of_int x / of_nat n)"
  by (simp add: truediv_def)

lemma epidemic_stats_Cons:
  "epidemic_stats (v # vs) =
     Inr (superstep v,
          of_int (sum_bool (\<lambda>v. vertex_value v \<ge> 0) (v # vs)) / of_nat (Suc (length vs)),
          of_int (sum_bool (\<lambda>v. vertex_value v > 0) (v # vs)) / of_nat (Suc (length vs)))"
  by (simp add: epidemic_stats_def truediv_pos del: of_nat_Suc)

lemma social_stats_Cons:
  "social_stats (v # vs) =
     Inr (superstep v,
          of_int (sum_bool (\<lambda>v. vertex_value v = ''F'') (v # vs)) / of_nat (Suc (length vs)),
          of_int (sum_bool (\<lambda>v. vertex_value v = ''M'') (v # vs)) / of_nat (Suc (length vs)))"
  by (simp add: social_stats_def truediv_pos del: of_nat_Suc)

text \<open>
  C10: on every non-empty vertex list both statistics functions return a triple (the
  superstep of the first vertex and the two proportions, counts over the length of the
  list); on the empty list both fail, with the \<open>IndexError\<close> of \<open>vertices[0]\<close>, which
  comes before the division.
\<close>

theorem stats_nonempty_defined:
  "(vertices \<noteq> [] \<longrightarrow>
      epidemic_stats vertices =
        Inr (superstep (hd vertices),
             of_int (sum_bool (\<lambda>v. vertex_value v \<ge> 0) vertices) / of_nat (length vertices),
             of_int (sum_bool (\<lambda>v. vertex_value v > 0) vertices) / of_nat (length vertices))) \<and>
   (svertices \<noteq> [] \<longrightarrow>
      social_stats svertices =
        Inr (superstep (hd svertices),
             of_int (sum_bool (\<lambda>v. vertex_value v = ''F'') svertices) / of_nat (length svertices),
             of_int (sum_bool (\<lambda>v. vertex_value v = ''M'') svertices) / of_nat (length svertices))) \<and>
   epidemic_stats [] = Inl IndexError \<and> social_stats [] = Inl IndexError"
proof -
  have "epidemic_stats [] = Inl IndexError"
    by (simp add: epidemic_stats_def)
  moreover have "social_stats [] = Inl IndexError"
    by (simp add: social_stats_def)
  moreover have "vertices \<noteq> [] \<longrightarrow>
      epidemic_stats vertices =
        Inr (superstep (hd vertices),
             of_int (sum_bool (\<lambda>v. vertex_value v \<ge> 0) vertices) / of_nat (length vertices),
             of_int (sum_bool (\<lambda>v. vertex_value v > 0) vertices) / of_nat (length vertices))"
    by (cases vertices) (simp_all add: epidemic_stats_Cons del: of_nat_Suc)
  moreover have "svertices \<noteq> [] \<longrightarrow>
      social_stats svertices =
        Inr (superstep (hd svertices),
             of_int (sum_bool (\<lambda>v. vertex_value v = ''F'') svertices) / of_nat (length svertices),
             of_int (sum_bool (\<lambda>v. vertex_value v = ''M'') svertices) / of_nat (length svertices))"
    by (cases svertices) (simp_all add: social_stats_Cons del: of_nat_Suc)
  ultimately show ?thesis by blast
qed

theorem stats_nonempty_defined_witness:
  "epidemic_stats
     [\<lparr>vertex_id = 0, vertex_value = 2, out_vertices = [1], incoming_messages = [],
       outgoing_messages = [], active = True, superstep = 3\<rparr>,
      \<lparr>vertex_id = 1, vertex_value = - 1, out_vertices = [0], incoming_messages = [],
       outgoing_messages = [], active = False, superstep = 3\<rparr>] = Inr (3, 1 / 2, 1 / 2) \<and>
   social_stats
     [\<lparr>vertex_id = 0, vertex_value = ''M'', out_vertices = [1], incoming_messages = [],
       outgoing_messages = [], active = True, superstep = 7\<rparr>,
      \<lparr>vertex_id = 1, vertex_value = ''F'', out_vertices = [0], incoming_messages = [],
       outgoing_messages = [], active = True, superstep = 7\<rparr>,
      \<lparr>vertex_id = 2, vertex_value = ''F'', out_vertices = [], incoming_messages = [],
       outgoing_messages = [], active = True, superstep = 7\<rparr>,
      \<lparr>vertex_id = 3, vertex_value = ''F'', out_vertices = [], incoming_messages = [],
       outgoing_messages = [], active = True, superstep = 7\<rparr>] = Inr (7, 3 / 4, 1 / 4)"
  using stats_nonempty_defined
    [of "[\<lparr>vertex_id = 0, vertex_value = 2, out_vertices = [1], incoming_messages = [],
           outgoing_messages = [], active = True, superstep = 3\<rparr>,
          \<lparr>vertex_id = 1, vertex_value = - 1, out_vertices = [0], incoming_messages = [],
           outgoing_messages = [], active = False, superstep = 3\<rparr>]"
        "[\<lparr>vertex_id = 0, vertex_value = ''M'', out_vertices = [1], incoming_messages = [],
           outgoing_messages = [], active = True, superstep = 7\<rparr>,
          \<lparr>vertex_id = 1, vertex_value = ''F'', out_vertices = [0], incoming_messages = [],
           outgoing_messages = [], active = True, superstep = 7\<rparr>,
          \<lparr>vertex_id = 2, vertex_value = ''F'', out_vertices = [], incoming_messages = [],
           outgoing_messages = [], active = True, superstep = 7\<rparr>,
          \<lparr>vertex_id = 3, vertex_value = ''F'', out_vertices = [], incoming_messages = [],
           outgoing_messages = [], active = True, superstep = 7\<rparr>]"]
  by (simp add: sum_bool_def)

section \<open>A healthy vertex: one trial per incoming message\<close>

lemma ex_less_Suc_shift: "(\<exists>j<Suc n. P j) \<longleftrightarrow> P 0 \<or> (\<exists>j<n. P (Suc j))"
  by (metis less_Suc_eq_0_disj)

lemma infect_loop_eq:
  "infect_loop p ms val g =
     (if \<exists>j<length ms. g j < p then 1 else val, \<lambda>n. g (n + length ms))"
proof (induction ms arbitrary: val g)
  case Nil
  show ?case by simp
next
  case (Cons m ms)
  show ?case
    by (auto simp add: random_random_def Cons.IH ex_less_Suc_shift simp del: ex_simps)
qed

lemma card_some_below:
  assumes "j \<le> N"
  shows "card {ds. length ds = k \<and> set ds \<subseteq> {..<N} \<and> (\<exists>n<k. ds ! n < j)} = N ^ k - (N - j) ^ k"
proof -
  let ?A = "{ds. set ds \<subseteq> {..<N} \<and> length ds = k}"
  let ?B = "{ds. set ds \<subseteq> {j..<N} \<and> length ds = k}"
  have fin: "finite ?A" by (rule finite_lists_length_eq) simp
  have sub: "?B \<subseteq> ?A" by auto
  have eq: "{ds. length ds = k \<and> set ds \<subseteq> {..<N} \<and> (\<exists>n<k. ds ! n < j)} = ?A - ?B"
  proof (rule set_eqI)
    fix ds
    have "length ds = k \<Longrightarrow> (\<exists>n<k. ds ! n < j) \<longleftrightarrow> \<not> (\<forall>x\<in>set ds. j \<le> x)"
      by (simp add: all_set_conv_all_nth not_le)
    then show "ds \<in> {ds. length ds = k \<and> set ds \<subseteq> {..<N} \<and> (\<exists>n<k. ds ! n < j)} \<longleftrightarrow> ds \<in> ?A - ?B"
      by (cases "length ds = k") (auto simp: subset_iff)
  qed
  have "card (?A - ?B) = card ?A - card ?B"
    using fin sub by (simp add: card_Diff_subset finite_subset)
  also have "card ?A = N ^ k" by (simp add: card_lists_length_eq)
  also have "card ?B = (N - j) ^ k" by (simp add: card_lists_length_eq)
  finally show ?thesis using eq by simp
qed

lemma grid_fraction:
  assumes "0 < N" and "j \<le> N"
  shows "(of_nat (N ^ k - (N - j) ^ k) :: rat) / of_nat (N ^ k) = 1 - (1 - of_nat j / of_nat N) ^ k"
proof -
  have le: "(N - j) ^ k \<le> N ^ k" by (simp add: power_mono)
  have N0: "(of_nat N :: rat) \<noteq> 0" using assms by simp
  have "(1 - of_nat j / of_nat N :: rat) = of_nat (N - j) / of_nat N"
    using assms N0 by (simp add: field_simps)
  then have "(1 - (1 - of_nat j / of_nat N) ^ k :: rat) = 1 - of_nat ((N - j) ^ k) / of_nat (N ^ k)"
    by (simp add: power_divide)
  also have "\<dots> = (of_nat (N ^ k) - of_nat ((N - j) ^ k)) / of_nat (N ^ k)"
    using N0 by (simp add: diff_divide_distrib)
  also have "\<dots> = of_nat (N ^ k - (N - j) ^ k) / of_nat (N ^ k)"
    using le by simp
  finally show ?thesis by simp
qed

lemma grid_rng_less:
  "0 < N \<Longrightarrow> n < length ds \<Longrightarrow> grid_rng N ds n < of_nat j / of_nat N \<longleftrightarrow> ds ! n < j"
  by (simp add: grid_rng_def divide_less_cancel)

lemma healthy_update:
  assumes "vertex_value self = 0" and "1 \<le> superstep self" and "superstep self < nsteps"
  shows "EpidemicVertex_update i td p nsteps self g =
           (self\<lparr>vertex_value := (if \<exists>n<length (incoming_messages self). g n < p then 1 else 0)\<rparr>,
            \<lambda>n. g (n + length (incoming_messages self)))"
  using assms by (simp add: EpidemicVertex_update_def infect_loop_eq)

text \<open>
  C1: a healthy vertex (value 0) updated at a superstep from 1 to below \<open>nsteps\<close>, with
  \<open>k\<close> incoming messages, makes exactly \<open>k\<close> draws, one per message, each compared with
  \<open>p\<close>; it ends with value 1 if and only if at least one of the \<open>k\<close> draws is below \<open>p\<close>,
  with value 0 otherwise, and nothing else of the vertex changes.  With draws uniform
  on a grid of \<open>N\<close> points and \<open>p = j/N\<close>, the share of the \<open>N ^ k\<close> outcomes of the \<open>k\<close>
  draws that leave the vertex infected is \<open>1 - (1 - p) ^ k\<close>.
\<close>

theorem healthy_infected_iff_some_trial:
  assumes "vertex_value self = 0" and "1 \<le> superstep self" and "superstep self < nsteps"
    and "k = length (incoming_messages self)"
  shows "EpidemicVertex_update i td p nsteps self g =
           (self\<lparr>vertex_value := (if \<exists>n<k. g n < p then 1 else 0)\<rparr>, \<lambda>n. g (n + k)) \<and>
         (0 < N \<and> j \<le> N \<and> p = of_nat j / of_nat N \<longrightarrow>
            of_nat (card {ds. length ds = k \<and> set ds \<subseteq> {..<N} \<and>
                              vertex_value (fst (EpidemicVertex_update i td p nsteps self
                                                   (grid_rng N ds))) = 1}) / of_nat (N ^ k)
              = 1 - (1 - p) ^ k)"
proof (intro conjI impI)
  show "EpidemicVertex_update i td p nsteps self g =
           (self\<lparr>vertex_value := (if \<exists>n<k. g n < p then 1 else 0)\<rparr>, \<lambda>n. g (n + k))"
    using assms by (simp add: healthy_update)
next
  assume a: "0 < N \<and> j \<le> N \<and> p = of_nat j / of_nat N"
  have "{ds. length ds = k \<and> set ds \<subseteq> {..<N} \<and>
             vertex_value (fst (EpidemicVertex_update i td p nsteps self (grid_rng N ds))) = 1}
        = {ds. length ds = k \<and> set ds \<subseteq> {..<N} \<and> (\<exists>n<k. ds ! n < j)}"
  proof (rule Collect_cong)
    fix ds :: "nat list"
    show "(length ds = k \<and> set ds \<subseteq> {..<N} \<and>
             vertex_value (fst (EpidemicVertex_update i td p nsteps self (grid_rng N ds))) = 1)
          \<longleftrightarrow> (length ds = k \<and> set ds \<subseteq> {..<N} \<and> (\<exists>n<k. ds ! n < j))"
    proof (cases "length ds = k")
      case True
      have "(\<exists>n<k. grid_rng N ds n < p) \<longleftrightarrow> (\<exists>n<k. ds ! n < j)"
        using a True by (auto simp add: grid_rng_less)
      then show ?thesis
        using assms True by (simp add: healthy_update)
    next
      case False
      then show ?thesis by simp
    qed
  qed
  then show "of_nat (card {ds. length ds = k \<and> set ds \<subseteq> {..<N} \<and>
                              vertex_value (fst (EpidemicVertex_update i td p nsteps self
                                                   (grid_rng N ds))) = 1}) / of_nat (N ^ k)
              = 1 - (1 - p) ^ k"
    using a by (simp only: card_some_below grid_fraction)
qed

theorem healthy_infected_iff_some_trial_witness:
  "EpidemicVertex_update 1 1 (1 / 2) 50
     \<lparr>vertex_id = 1, vertex_value = 0, out_vertices = [0, 2],
      incoming_messages = [(0, 1, ''sneeze''), (2, 1, ''sneeze'')],
      outgoing_messages = [], active = True, superstep = 1\<rparr>
     (\<lambda>n. if n = 1 then 1 / 4 else 3 / 4)
   = (\<lparr>vertex_id = 1, vertex_value = 1, out_vertices = [0, 2],
       incoming_messages = [(0, 1, ''sneeze''), (2, 1, ''sneeze'')],
       outgoing_messages = [], active = True, superstep = 1\<rparr>, \<lambda>n. 3 / 4) \<and>
   of_nat (card {ds. length ds = 2 \<and> set ds \<subseteq> {..<2} \<and>
                     vertex_value (fst (EpidemicVertex_update 1 1 (1 / 2) 50
                        \<lparr>vertex_id = 1, vertex_value = 0, out_vertices = [0, 2],
                         incoming_messages = [(0, 1, ''sneeze''), (2, 1, ''sneeze'')],
                         outgoing_messages = [], active = True, superstep = 1\<rparr>
                        (grid_rng 2 ds))) = 1}) / of_nat (2 ^ 2) = (3 / 4 :: rat)"
  using healthy_infected_iff_some_trial
    [of "\<lparr>vertex_id = 1, vertex_value = 0, out_vertices = [0, 2],
          incoming_messages = [(0, 1, ''sneeze''), (2, 1, ''sneeze'')],
          outgoing_messages = [], active = True, superstep = 1\<rparr>"
        50 2 1 1 "1 / 2" "\<lambda>n. if n = 1 then 1 / 4 else 3 / 4" 2 1]
  by (simp add: power2_eq_square)

section \<open>An infected vertex within its incubation window\<close>

text \<open>
  C2 (as stated): the infected vertex would emit to each neighbour with probability
  \<open>p\<close>.  It does not.  With \<open>p = 0\<close> no neighbour would ever get a message, yet the
  vertex emits to its neighbour; and with \<open>p = 1/2\<close> and a generator whose every draw is
  \<open>3/4\<close> (no trial against \<open>p\<close> could succeed) it emits as well, and the generator is
  not advanced.
\<close>

theorem infected_emits_with_probability_p_counterexample:
  "EpidemicVertex_update 1 1 0 50
     \<lparr>vertex_id = 0, vertex_value = 1, out_vertices = [1], incoming_messages = [],
      outgoing_messages = [], active = True, superstep = 1\<rparr> (const_rng (3 / 4))
   = (\<lparr>vertex_id = 0, vertex_value = 2, out_vertices = [1], incoming_messages = [],
       outgoing_messages = [(1, 1, ''sneeze'')], active = True, superstep = 1\<rparr>,
      const_rng (3 / 4)) \<and>
   EpidemicVertex_update 1 1 (1 / 2) 50
     \<lparr>vertex_id = 0, vertex_value = 1, out_vertices = [1], incoming_messages = [],
      outgoing_messages = [], active = True, superstep = 1\<rparr> (const_rng (3 / 4))
   = (\<lparr>vertex_id = 0, vertex_value = 2, out_vertices = [1], incoming_messages = [],
       outgoing_messages = [(1, 1, ''sneeze'')], active = True, superstep = 1\<rparr>,
      const_rng (3 / 4))"
  by (simp add: EpidemicVertex_update_def)

text \<open>
  C2 (amended): an infected vertex within its incubation window (\<open>0 < value \<le> td\<close>),
  updated at a superstep from 1 to below \<open>nsteps\<close>, stays infected (its value goes up by
  one) and emits the message \<open>(v, 1, "sneeze")\<close> to every outgoing neighbour \<open>v\<close>, with
  certainty: it makes no draw and leaves the generator as it was.  The probability \<open>p\<close>
  is applied by the receiving healthy vertex, once per message.
\<close>

theorem infected_emits_to_every_neighbour:
  assumes "0 < vertex_value self" and "vertex_value self \<le> td"
    and "1 \<le> superstep self" and "superstep self < nsteps"
  shows "EpidemicVertex_update i td p nsteps self g =
           (self\<lparr>vertex_value := vertex_value self + 1,
                 outgoing_messages := map (\<lambda>v. (v, 1, ''sneeze'')) (out_vertices self)\<rparr>, g) \<and>
         0 < vertex_value (fst (EpidemicVertex_update i td p nsteps self g)) \<and>
         map fst (outgoing_messages (fst (EpidemicVertex_update i td p nsteps self g)))
           = out_vertices self"
  using assms by (simp add: EpidemicVertex_update_def comp_def)

theorem infected_emits_to_every_neighbour_witness:
  "EpidemicVertex_update 0 2 (1 / 10) 50
     \<lparr>vertex_id = 4, vertex_value = 2, out_vertices = [1, 7], incoming_messages = [],
      outgoing_messages = [], active = True, superstep = 3\<rparr> (\<lambda>n. 9 / 10)
   = (\<lparr>vertex_id = 4, vertex_value = 3, out_vertices = [1, 7], incoming_messages = [],
       outgoing_messages = [(1, 1, ''sneeze''), (7, 1, ''sneeze'')], active = True,
       superstep = 3\<rparr>, \<lambda>n. 9 / 10)"
  using infected_emits_to_every_neighbour
    [of "\<lparr>vertex_id = 4, vertex_value = 2, out_vertices = [1, 7], incoming_messages = [],
          outgoing_messages = [], active = True, superstep = 3\<rparr>" 2 50 0 "1 / 10" "\<lambda>n. 9 / 10"]
  by simp

section \<open>The counting loop and the switch\<close>

lemma count_loop_labels:
  "labels_only ms \<Longrightarrow>
     count_loop ms f m = Inr (f + payload_count ''F'' ms, m + payload_count ''M'' ms)"
  by (induction ms f m rule: count_loop.induct)
     (auto simp add: labels_only_def payload_count_def)

lemma count_loop_bad: "\<not> labels_only ms \<Longrightarrow> count_loop ms f m = Inl ValueError"
  by (induction ms f m rule: count_loop.induct)
     (auto simp add: labels_only_def)

lemma switch_eq:
  "switch sp f m g = (f < m \<and> g 0 < sp, if f < m then (\<lambda>n. g (Suc n)) else g)"
  by (simp add: switch_def random_random_def)

lemma social_update_not_M:
  assumes "vertex_value self \<noteq> ''M''" and "superstep self < nsteps"
  shows "SocialVertex_update nsteps a sp self g =
     (if labels_only (incoming_messages self) then
        (let f = payload_count ''F'' (incoming_messages self);
             m = payload_count ''M'' (incoming_messages self);
             val = (if f < m \<and> g 0 < sp then ''M'' else vertex_value self);
             out = send_loop a val (out_vertices self) (if f < m then (\<lambda>n. g (Suc n)) else g)
         in Inr (self\<lparr>vertex_value := val, outgoing_messages := fst out\<rparr>, snd out))
      else Inl ValueError)"
  using assms
  by (simp add: SocialVertex_update_def count_loop_labels count_loop_bad switch_eq Let_def
      split: prod.splits)

lemma social_update_value:
  assumes "vertex_value self = ''F''" and "superstep self < nsteps"
    and "labels_only (incoming_messages self)"
  shows "(\<exists>v' g'. SocialVertex_update nsteps a sp self g = Inr (v', g') \<and> vertex_value v' = ''M'')
     \<longleftrightarrow> payload_count ''F'' (incoming_messages self) < payload_count ''M'' (incoming_messages self)
           \<and> g 0 < sp"
  using assms by (simp add: social_update_not_M Let_def)

lemma card_grid_below:
  assumes "0 < N" and "j \<le> N"
  shows "card {d. d < N \<and> c \<and> grid_rng N [d] 0 < of_nat j / of_nat N} = (if c then j else 0)"
proof -
  have "{d. d < N \<and> c \<and> grid_rng N [d] 0 < of_nat j / of_nat N} = (if c then {..<j} else {})"
    using assms by (auto simp add: grid_rng_def divide_less_cancel)
  then show ?thesis by simp
qed

section \<open>One round of the engine, vertex by vertex\<close>

lemma update_active_rel:
  assumes "update_active upd vs g = Inr (vs', g')"
    and "\<And>v g v' g'. v \<in> set vs \<Longrightarrow> active v \<Longrightarrow> upd v g = Inr (v', g') \<Longrightarrow> Q v v'"
    and "\<And>v. v \<in> set vs \<Longrightarrow> \<not> active v \<Longrightarrow> Q v v"
  shows "list_all2 Q vs vs'"
  using assms
proof (induction vs arbitrary: g vs' g')
  case Nil
  then show ?case by simp
next
  case (Cons v vs)
  show ?case
  proof (cases "active v")
    case True
    with Cons.prems(1) obtain v1 g1 vs1 where
      u: "upd v g = Inr (v1, g1)" and r: "update_active upd vs g1 = Inr (vs1, g')"
      and e: "vs' = v1 # vs1"
      by (auto split: sum.splits prod.splits)
    have "Q v v1" using Cons.prems(2) [of v g v1 g1] True u by simp
    moreover have "list_all2 Q vs vs1"
      using Cons.IH [OF r] Cons.prems(2,3) by simp
    ultimately show ?thesis using e by simp
  next
    case False
    with Cons.prems(1) obtain vs1 where
      r: "update_active upd vs g = Inr (vs1, g')" and e: "vs' = v # vs1"
      by (auto split: sum.splits prod.splits)
    have "Q v v" using Cons.prems(3) [of v] False by simp
    moreover have "list_all2 Q vs vs1"
      using Cons.IH [OF r] Cons.prems(2,3) by simp
    ultimately show ?thesis using e by simp
  qed
qed

lemma update_active_total:
  assumes "\<And>v g. v \<in> set vs \<Longrightarrow> active v \<Longrightarrow> \<exists>v' g'. upd v g = Inr (v', g')"
  shows "\<exists>vs' g'. update_active upd vs g = Inr (vs', g')"
  using assms
proof (induction vs arbitrary: g)
  case Nil
  then show ?case by simp
next
  case (Cons v vs)
  show ?case
  proof (cases "active v")
    case True
    then obtain v1 g1 where u: "upd v g = Inr (v1, g1)"
      using Cons.prems [of v g] by auto
    obtain vs1 g2 where "update_active upd vs g1 = Inr (vs1, g2)"
      using Cons.IH [of g1] Cons.prems by auto
    then show ?thesis using True u by simp
  next
    case False
    obtain vs1 g2 where "update_active upd vs g = Inr (vs1, g2)"
      using Cons.IH [of g] Cons.prems by auto
    then show ?thesis using False by simp
  qed
qed

lemma update_active_error:
  assumes "update_active upd vs g = Inl e"
  shows "\<exists>v g1. v \<in> set vs \<and> active v \<and> upd v g1 = Inl e"
  using assms
proof (induction vs arbitrary: g)
  case Nil
  then show ?case by simp
next
  case (Cons v vs)
  then show ?case
    by (fastforce split: if_splits sum.splits prod.splits)
qed

lemma redistribute_messages_Inr:
  "redistribute_messages vs = Inr vs' \<Longrightarrow>
     vs' = map (\<lambda>u. u\<lparr>incoming_messages := inbox vs (vertex_id u),
                        outgoing_messages := []\<rparr>) vs"
  by (simp add: redistribute_messages_def split: if_splits)

lemma redistribute_messages_Inl:
  "redistribute_messages vs = Inl e \<Longrightarrow> e = UpdateRuleError"
  by (simp add: redistribute_messages_def split: if_splits)

lemma inbox_no_outgoing:
  "\<forall>v\<in>set vs. outgoing_messages v = [] \<Longrightarrow> inbox vs u = []"
  by (induction vs) (simp_all add: inbox_def)

lemma redistribute_messages_no_outgoing:
  assumes "\<forall>v\<in>set vs. outgoing_messages v = []"
  shows "redistribute_messages vs =
           Inr (map (\<lambda>u. u\<lparr>incoming_messages := [], outgoing_messages := []\<rparr>) vs)"
proof -
  have "list_all (\<lambda>src. list_all (\<lambda>(d, w, msg). d \<in> set (map vertex_id vs))
                                   (outgoing_messages src)) vs"
    using assms by (simp add: list_all_iff)
  then show ?thesis
    using assms by (simp add: redistribute_messages_def inbox_no_outgoing)
qed

lemma pregel_superstep_Inr:
  assumes "pregel_superstep upd stats_fn (vs, g, data) = Inr (vs', g', data')"
  shows "\<exists>vs1. update_active upd vs g = Inr (vs1, g') \<and>
           vs' = map (\<lambda>u. u\<lparr>incoming_messages := inbox vs1 (vertex_id u),
                              outgoing_messages := [],
                              superstep := superstep u + 1\<rparr>) vs1 \<and>
           (case stats_fn of
              None \<Rightarrow> data' = data
            | Some f \<Rightarrow>
                \<exists>t. f (map (\<lambda>u. u\<lparr>incoming_messages := inbox vs1 (vertex_id u),
                                     outgoing_messages := []\<rparr>) vs1) = Inr t \<and>
                    data' = data @ [t])"
  using assms
  by (auto simp add: pregel_superstep_def dest!: redistribute_messages_Inr
      split: sum.splits prod.splits option.splits)

lemma pregel_superstep_rel:
  assumes "pregel_superstep upd stats_fn (vs, g, data) = Inr (vs', g', data')"
    and "\<And>v g v' g'. v \<in> set vs \<Longrightarrow> active v \<Longrightarrow> upd v g = Inr (v', g') \<Longrightarrow> Q v v'"
    and "\<And>v. v \<in> set vs \<Longrightarrow> \<not> active v \<Longrightarrow> Q v v"
    and "\<And>v v' inc out s. Q v v' \<Longrightarrow>
           Q v (v'\<lparr>incoming_messages := inc, outgoing_messages := out, superstep := s\<rparr>)"
  shows "list_all2 Q vs vs'"
proof -
  obtain vs1 where u: "update_active upd vs g = Inr (vs1, g')"
    and e: "vs' = map (\<lambda>u. u\<lparr>incoming_messages := inbox vs1 (vertex_id u),
                              outgoing_messages := [],
                              superstep := superstep u + 1\<rparr>) vs1"
    using pregel_superstep_Inr [OF assms(1)] by blast
  have "list_all2 Q vs vs1"
    using update_active_rel [OF u, of Q] assms(2,3) by blast
  then show ?thesis
    unfolding e by (simp add: list_all2_map2 list_all2_mono assms(4))
qed

section \<open>The run loop and its first rounds\<close>

lemma pregel_rounds_inactive:
  "\<not> check_active (fst st) \<Longrightarrow> pregel_rounds k upd stats_fn st = Inr st"
  by (cases k) simp_all

lemma pregel_rounds_add:
  "pregel_rounds (k + d) upd stats_fn st =
     (case pregel_rounds k upd stats_fn st of
        Inl e \<Rightarrow> Inl e
      | Inr st' \<Rightarrow> pregel_rounds d upd stats_fn st')"
proof (induction k arbitrary: st)
  case 0
  show ?case by simp
next
  case (Suc k)
  show ?case
    by (simp add: Suc.IH pregel_rounds_inactive split: sum.splits)
qed

lemma pregel_rounds_invariant:
  assumes "pregel_rounds k upd stats_fn st = Inr st'"
    and "P st"
    and "\<And>st st'. P st \<Longrightarrow> check_active (fst st) \<Longrightarrow>
           pregel_superstep upd stats_fn st = Inr st' \<Longrightarrow> P st'"
  shows "P st'"
  using assms(1,2)
proof (induction k arbitrary: st)
  case 0
  then show ?case by simp
next
  case (Suc k)
  show ?case
  proof (cases "check_active (fst st)")
    case True
    with Suc.prems(1) obtain st1 where
      s: "pregel_superstep upd stats_fn st = Inr st1" and r: "pregel_rounds k upd stats_fn st1 = Inr st'"
      by (auto split: sum.splits)
    have "P st1" using assms(3) [OF Suc.prems(2) True s] .
    then show ?thesis using Suc.IH [OF r] by simp
  next
    case False
    then show ?thesis using Suc.prems by simp
  qed
qed

lemma pregel_rounds_run:
  assumes "pregel_rounds k upd stats_fn st = r"
    and "case r of Inl e \<Rightarrow> True | Inr st' \<Rightarrow> \<not> check_active (fst st')"
  shows "pregel_run upd stats_fn st = Some r"
  using assms
proof (induction k arbitrary: st)
  case 0
  then show ?case by (subst pregel_run.simps) auto
next
  case (Suc k)
  show ?case
  proof (cases "check_active (fst st)")
    case True
    show ?thesis
    proof (cases "pregel_superstep upd stats_fn st")
      case (Inl e)
      then have "r = Inl e" using True Suc.prems(1) by simp
      then show ?thesis
        using True Inl by (subst pregel_run.simps) simp
    next
      case (Inr st1)
      then have "pregel_rounds k upd stats_fn st1 = r"
        using True Suc.prems by simp
      then have "pregel_run upd stats_fn st1 = Some r"
        using Suc.IH Suc.prems(2) by simp
      then show ?thesis
        using True Inr by (subst pregel_run.simps) simp
    qed
  next
    case False
    then show ?thesis
      using Suc.prems by (subst pregel_run.simps) auto
  qed
qed

lemma pregel_run_rounds:
  assumes "pregel_run upd stats_fn st = Some r"
  shows "\<exists>k. pregel_rounds k upd stats_fn st = r \<and>
             (case r of Inl e \<Rightarrow> True | Inr st' \<Rightarrow> \<not> check_active (fst st'))"
proof (rule pregel_run.raw_induct
      [where P = "\<lambda>u f s r. \<exists>k. pregel_rounds k u f s = r \<and>
             (case r of Inl e \<Rightarrow> True | Inr st' \<Rightarrow> \<not> check_active (fst st'))", OF _ assms])
    fix run and u :: "'a vertex \<Rightarrow> rng \<Rightarrow> error + ('a vertex \<times> rng)" and f s r
    assume IH: "\<And>x b c y. run x b c = Some y \<Longrightarrow>
             \<exists>k. pregel_rounds k x b c = y \<and>
               (case y of Inl e \<Rightarrow> True | Inr st' \<Rightarrow> \<not> check_active (fst st'))"
      and step: "(if check_active (fst s) then
                    (case pregel_superstep u f s of
                       Inl e \<Rightarrow> Some (Inl e)
                     | Inr st' \<Rightarrow> run u f st')
                  else Some (Inr s)) = Some r"
    show "\<exists>k. pregel_rounds k u f s = r \<and>
               (case r of Inl e \<Rightarrow> True | Inr st' \<Rightarrow> \<not> check_active (fst st'))"
    proof (cases "check_active (fst s)")
      case False
      then have "pregel_rounds 0 u f s = r \<and>
               (case r of Inl e \<Rightarrow> True | Inr st' \<Rightarrow> \<not> check_active (fst st'))"
        using step by auto
      then show ?thesis by blast
    next
      case True
      show ?thesis
      proof (cases "pregel_superstep u f s")
        case (Inl e)
        then have "r = Inl e" using True step by simp
        then have "pregel_rounds (Suc 0) u f s = r \<and>
               (case r of Inl e \<Rightarrow> True | Inr st' \<Rightarrow> \<not> check_active (fst st'))"
          using True Inl by simp
        then show ?thesis by blast
      next
        case (Inr st1)
        then have "run u f st1 = Some r" using True step by simp
        then obtain k where "pregel_rounds k u f st1 = r \<and>
               (case r of Inl e \<Rightarrow> True | Inr st' \<Rightarrow> \<not> check_active (fst st'))"
          using IH by blast
        then have "pregel_rounds (Suc k) u f s = r \<and>
               (case r of Inl e \<Rightarrow> True | Inr st' \<Rightarrow> \<not> check_active (fst st'))"
          using True Inr by simp
        then show ?thesis by blast
      qed
    qed
qed

section \<open>The label \<open>"M"\<close> is absorbing\<close>

lemma pregel_rounds_rel:
  assumes "pregel_rounds k upd stats_fn (vs, g, data) = Inr (vs', g', data')"
    and step: "\<And>v g v' g'. active v \<Longrightarrow> upd v g = Inr (v', g') \<Longrightarrow> Q v v'"
    and refl: "\<And>v. Q v v"
    and trans: "\<And>x y z. Q x y \<Longrightarrow> Q y z \<Longrightarrow> Q x z"
    and frame: "\<And>v v' inc out s. Q v v' \<Longrightarrow>
           Q v (v'\<lparr>incoming_messages := inc, outgoing_messages := out, superstep := s\<rparr>)"
  shows "list_all2 Q vs vs'"
proof -
  have "list_all2 Q vs (fst (vs', g', data'))"
  proof (rule pregel_rounds_invariant [OF assms(1), where P = "\<lambda>st. list_all2 Q vs (fst st)"])
    show "list_all2 Q vs (fst (vs, g, data))"
      by (simp add: list_all2_refl refl)
  next
    fix st st' :: "'a vertex list \<times> rng \<times> (int \<times> rat \<times> rat) list"
    assume a: "list_all2 Q vs (fst st)" and s: "pregel_superstep upd stats_fn st = Inr st'"
    obtain ws h d where st: "st = (ws, h, d)" by (cases st) auto
    obtain ws' h' d' where st': "st' = (ws', h', d')" by (cases st') auto
    have "list_all2 Q ws ws'"
      using pregel_superstep_rel [of upd stats_fn ws h d ws' h' d' Q] s step refl frame
      unfolding st st' by blast
    then show "list_all2 Q vs (fst st')"
      using a trans unfolding st st' by (auto elim: list_all2_trans [rotated])
  qed
  then show ?thesis by simp
qed

lemma social_update_value_cases:
  assumes "SocialVertex_update nsteps a sp self g = Inr (v', g')"
  shows "vertex_value v' = vertex_value self \<or> vertex_value v' = ''M''"
  using assms
  by (auto simp add: SocialVertex_update_def split: if_splits sum.splits prod.splits)

text \<open>
  C4: in a run of social vertices, a vertex whose value is \<open>"M"\<close> after \<open>t\<close> rounds still
  has the value \<open>"M"\<close> after \<open>t'\<close> rounds, for all \<open>t < t'\<close>; the vertex list keeps its
  length; and an update returns its vertex with the value it had or with \<open>"M"\<close>, so it
  never assigns \<open>"F"\<close> to a vertex that holds another value.
\<close>

theorem M_is_absorbing:
  assumes "pregel_rounds t (SocialVertex_update nsteps a sp) stats_fn (vertices, g, data)
             = Inr (vs, h, d)"
    and "pregel_rounds t' (SocialVertex_update nsteps a sp) stats_fn (vertices, g, data)
             = Inr (vs', h', d')"
    and "t < t'" and "n < length vertices" and "vertex_value (vs ! n) = ''M''"
  shows "vertex_value (vs' ! n) = ''M'' \<and> length vs = length vertices \<and>
         length vs' = length vertices \<and>
         (\<forall>self g0 v' g'. SocialVertex_update nsteps a sp self g0 = Inr (v', g') \<longrightarrow>
            vertex_value v' = vertex_value self \<or> vertex_value v' = ''M'')"
proof -
  let ?Q = "\<lambda>v v' :: string vertex. vertex_value v = ''M'' \<longrightarrow> vertex_value v' = ''M''"
  have step: "\<And>v g v' g'. active v \<Longrightarrow> SocialVertex_update nsteps a sp v g = Inr (v', g')
                \<Longrightarrow> ?Q v v'"
    using social_update_value_cases by fastforce
  have len: "length vs = length vertices"
    using pregel_rounds_rel [OF assms(1), of "\<lambda>v v'. True"] by (simp add: list_all2_lengthD)
  obtain k where k: "t' = t + k" using assms(3) by (auto simp add: less_iff_Suc_add)
  have "pregel_rounds k (SocialVertex_update nsteps a sp) stats_fn (vs, h, d) = Inr (vs', h', d')"
    using assms(1,2) unfolding k by (simp add: pregel_rounds_add)
  then have rel: "list_all2 ?Q vs vs'"
    by (rule pregel_rounds_rel) (use step in auto)
  then have "length vs' = length vertices"
    using len by (simp add: list_all2_lengthD)
  moreover have "vertex_value (vs' ! n) = ''M''"
    using list_all2_nthD [OF rel, of n] assms(4,5) len by simp
  moreover have "\<forall>self g0 v' g'. SocialVertex_update nsteps a sp self g0 = Inr (v', g') \<longrightarrow>
            vertex_value v' = vertex_value self \<or> vertex_value v' = ''M''"
    using social_update_value_cases by blast
  ultimately show ?thesis using len by simp
qed

theorem M_is_absorbing_witness:
  "pregel_rounds (Suc 0) (SocialVertex_update 30 1 1) (Some social_stats)
     ([\<lparr>vertex_id = 0, vertex_value = ''M'', out_vertices = [1], incoming_messages = [],
        outgoing_messages = [], active = True, superstep = 0\<rparr>,
       \<lparr>vertex_id = 1, vertex_value = ''F'', out_vertices = [0], incoming_messages = [],
        outgoing_messages = [], active = True, superstep = 0\<rparr>], \<lambda>n. 0, [])
   = Inr ([\<lparr>vertex_id = 0, vertex_value = ''M'', out_vertices = [1],
            incoming_messages = [(1, 1, ''F'')], outgoing_messages = [], active = True,
            superstep = 1\<rparr>,
           \<lparr>vertex_id = 1, vertex_value = ''F'', out_vertices = [0],
            incoming_messages = [(0, 1, ''M'')], outgoing_messages = [], active = True,
            superstep = 1\<rparr>], \<lambda>n. 0, [(0, 1 / 2, 1 / 2)]) \<and>
   pregel_rounds (Suc (Suc 0)) (SocialVertex_update 30 1 1) (Some social_stats)
     ([\<lparr>vertex_id = 0, vertex_value = ''M'', out_vertices = [1], incoming_messages = [],
        outgoing_messages = [], active = True, superstep = 0\<rparr>,
       \<lparr>vertex_id = 1, vertex_value = ''F'', out_vertices = [0], incoming_messages = [],
        outgoing_messages = [], active = True, superstep = 0\<rparr>], \<lambda>n. 0, [])
   = Inr ([\<lparr>vertex_id = 0, vertex_value = ''M'', out_vertices = [1],
            incoming_messages = [(1, 1, ''M'')], outgoing_messages = [], active = True,
            superstep = 2\<rparr>,
           \<lparr>vertex_id = 1, vertex_value = ''M'', out_vertices = [0],
            incoming_messages = [(0, 1, ''M'')], outgoing_messages = [], active = True,
            superstep = 2\<rparr>], \<lambda>n. 0, [(0, 1 / 2, 1 / 2), (1, 0, 1)]) \<and>
   vertex_value
     ([\<lparr>vertex_id = 0, vertex_value = ''M'', out_vertices = [1],
        incoming_messages = [(1, 1, ''M'')], outgoing_messages = [], active = True,
        superstep = 2\<rparr>,
       \<lparr>vertex_id = 1, vertex_value = ''M'', out_vertices = [0],
        incoming_messages = [(0, 1, ''M'')], outgoing_messages = [], active = True,
        superstep = 2\<rparr>] ! 0) = ''M''"
proof -
  let ?vs0 = "[\<lparr>vertex_id = 0, vertex_value = ''M'', out_vertices = [1], incoming_messages = [],
        outgoing_messages = [], active = True, superstep = 0\<rparr>,
       \<lparr>vertex_id = 1, vertex_value = ''F'', out_vertices = [0], incoming_messages = [],
        outgoing_messages = [], active = True, superstep = 0\<rparr>] :: string vertex list"
  let ?vs1 = "[\<lparr>vertex_id = 0, vertex_value = ''M'', out_vertices = [1],
            incoming_messages = [(1, 1, ''F'')], outgoing_messages = [], active = True,
            superstep = 1\<rparr>,
           \<lparr>vertex_id = 1, vertex_value = ''F'', out_vertices = [0],
            incoming_messages = [(0, 1, ''M'')], outgoing_messages = [], active = True,
            superstep = 1\<rparr>] :: string vertex list"
  let ?vs2 = "[\<lparr>vertex_id = 0, vertex_value = ''M'', out_vertices = [1],
            incoming_messages = [(1, 1, ''M'')], outgoing_messages = [], active = True,
            superstep = 2\<rparr>,
           \<lparr>vertex_id = 1, vertex_value = ''M'', out_vertices = [0],
            incoming_messages = [(0, 1, ''M'')], outgoing_messages = [], active = True,
            superstep = 2\<rparr>] :: string vertex list"
  have r1: "pregel_rounds (Suc 0) (SocialVertex_update 30 1 1) (Some social_stats)
              (?vs0, \<lambda>n. 0, []) = Inr (?vs1, \<lambda>n. 0, [(0, 1 / 2, 1 / 2)])"
    by (simp add: check_active_def pregel_superstep_def SocialVertex_update_def
        redistribute_messages_def inbox_def social_stats_def truediv_def sum_bool_def
        switch_def random_random_def)
  have r2: "pregel_rounds (Suc (Suc 0)) (SocialVertex_update 30 1 1) (Some social_stats)
              (?vs0, \<lambda>n. 0, []) = Inr (?vs2, \<lambda>n. 0, [(0, 1 / 2, 1 / 2), (1, 0, 1)])"
    by (simp add: check_active_def pregel_superstep_def SocialVertex_update_def
        redistribute_messages_def inbox_def social_stats_def truediv_def sum_bool_def
        switch_def random_random_def)
  have "vertex_value (?vs2 ! 0) = ''M''"
    using M_is_absorbing [OF r1 r2, of 0] by simp
  then show ?thesis using r1 r2 by simp
qed

section \<open>No run of social vertices raises \<open>ValueError\<close>\<close>

lemma send_loop_payload:
  "(d, w, msg) \<in> set (fst (send_loop a val vs g)) \<Longrightarrow> msg = val \<and> w = 1 \<and> d \<in> set vs"
proof (induction vs arbitrary: g)
  case Nil
  then show ?case by simp
next
  case (Cons v vs)
  obtain out g2 where s: "send_loop a val vs (\<lambda>n. g (Suc n)) = (out, g2)"
    by (cases "send_loop a val vs (\<lambda>n. g (Suc n))") auto
  have "(d, w, msg) \<in> set out \<Longrightarrow> msg = val \<and> w = 1 \<and> d \<in> set vs"
    using Cons.IH [of "\<lambda>n. g (Suc n)"] s by simp
  then show ?case
    using Cons.prems s by (auto simp add: random_random_def split: if_splits)
qed

lemma send_loop_labels:
  "val = ''F'' \<or> val = ''M'' \<Longrightarrow> labels_only (fst (send_loop a val vs g))"
  unfolding labels_only_def list_all_iff
  using send_loop_payload by fastforce

lemma social_update_wf:
  assumes "social_wf self"
  shows "\<exists>v' g'. SocialVertex_update nsteps a sp self g = Inr (v', g') \<and> social_wf v'"
proof (cases "superstep self < nsteps")
  case False
  then show ?thesis
    using assms by (simp add: SocialVertex_update_def social_wf_def)
next
  case True
  show ?thesis
  proof (cases "vertex_value self = ''M''")
    case M: True
    obtain out g2 where s: "send_loop a ''M'' (out_vertices self) g = (out, g2)"
      by (cases "send_loop a ''M'' (out_vertices self) g") auto
    have "labels_only out"
      using send_loop_labels [of "''M''" a "out_vertices self" g] s by simp
    then show ?thesis
      using assms True M s by (simp add: SocialVertex_update_def social_wf_def)
  next
    case F: False
    let ?f = "payload_count ''F'' (incoming_messages self)"
    let ?m = "payload_count ''M'' (incoming_messages self)"
    let ?val = "if ?f < ?m \<and> g 0 < sp then ''M'' else vertex_value self"
    let ?out = "send_loop a ?val (out_vertices self) (if ?f < ?m then (\<lambda>n. g (Suc n)) else g)"
    have v: "?val = ''F'' \<or> ?val = ''M''"
      using assms by (simp add: social_wf_def)
    have "labels_only (fst ?out)"
      using v by (rule send_loop_labels)
    then show ?thesis
      using assms v
      by (simp add: social_update_not_M [OF F True] social_wf_def Let_def)
  qed
qed

lemma send_loop_payload_pair:
  "send_loop a val vs g = (out, g') \<Longrightarrow> (d, w, msg) \<in> set out \<Longrightarrow> msg = val"
  using send_loop_payload [of d w msg a val vs g] by simp

lemma social_update_emits_own_value:
  assumes "SocialVertex_update nsteps a sp self g = Inr (v', g')" and "superstep self < nsteps"
    and "(d, w, msg) \<in> set (outgoing_messages v')"
  shows "msg = vertex_value v'"
  using assms
  by (auto simp add: SocialVertex_update_def
      split: if_splits sum.splits prod.splits dest: send_loop_payload_pair)

lemma list_all2_imp_list_all:
  "list_all2 (\<lambda>x y. P x \<longrightarrow> P' y) xs ys \<Longrightarrow> list_all P xs \<Longrightarrow> list_all P' ys"
  by (induction rule: list_all2_induct) auto

lemma labels_only_inbox:
  assumes "\<forall>v\<in>set vs. labels_only (outgoing_messages v)"
  shows "labels_only (inbox vs u)"
  using assms
  by (induction vs) (auto simp add: inbox_def labels_only_def list_all_iff)

lemma social_superstep_wf:
  assumes "pregel_superstep (SocialVertex_update nsteps a sp) stats_fn (vs, g, data)
             = Inr (vs', g', data')"
    and "list_all social_wf vs"
  shows "list_all social_wf vs'"
proof -
  obtain vs1 where u: "update_active (SocialVertex_update nsteps a sp) vs g = Inr (vs1, g')"
    and e: "vs' = map (\<lambda>u. u\<lparr>incoming_messages := inbox vs1 (vertex_id u),
                              outgoing_messages := [],
                              superstep := superstep u + 1\<rparr>) vs1"
    using pregel_superstep_Inr [OF assms(1)] by blast
  have "list_all2 (\<lambda>v v'. social_wf v \<longrightarrow> social_wf v') vs vs1"
  proof (rule update_active_rel [OF u])
    fix v g0 v' g1
    assume "SocialVertex_update nsteps a sp v g0 = Inr (v', g1)"
    then show "social_wf v \<longrightarrow> social_wf v'"
      using social_update_wf [of v nsteps a sp g0] by auto
  qed simp
  then have "list_all social_wf vs1"
    using assms(2) by (rule list_all2_imp_list_all)
  then have wf1: "\<forall>v\<in>set vs1. social_wf v"
    by (simp add: list_all_iff)
  then have "labels_only (inbox vs1 u)" for u
    by (intro labels_only_inbox) (simp add: social_wf_def)
  then show ?thesis
    using wf1 unfolding e by (simp add: list_all_iff social_wf_def labels_only_def)
qed

lemma social_stats_error: "social_stats vs = Inl e \<Longrightarrow> vs = [] \<and> e = IndexError"
  by (cases vs) (simp add: social_stats_def, simp add: social_stats_Cons)

lemma social_superstep_no_ValueError:
  assumes "list_all social_wf vs"
  shows "pregel_superstep (SocialVertex_update nsteps a sp) (Some social_stats) (vs, g, data)
           \<noteq> Inl ValueError"
proof
  assume a: "pregel_superstep (SocialVertex_update nsteps a sp) (Some social_stats) (vs, g, data)
           = Inl ValueError"
  have "\<exists>vs1 g1. update_active (SocialVertex_update nsteps a sp) vs g = Inr (vs1, g1)"
  proof (rule update_active_total)
    fix v g0
    assume "v \<in> set vs"
    then have "social_wf v" using assms by (simp add: list_all_iff)
    then show "\<exists>v' g'. SocialVertex_update nsteps a sp v g0 = Inr (v', g')"
      using social_update_wf [of v nsteps a sp g0] by blast
  qed
  then obtain vs1 g1 where u: "update_active (SocialVertex_update nsteps a sp) vs g = Inr (vs1, g1)"
    by blast
  show False
  proof (cases "redistribute_messages vs1")
    case (Inl e)
    then show False
      using a u redistribute_messages_Inl [OF Inl] by (simp add: pregel_superstep_def)
  next
    case (Inr vs2)
    show False
    proof (cases "social_stats vs2")
      case (Inl e)
      then show False
        using a u Inr social_stats_error [OF Inl] by (simp add: pregel_superstep_def)
    next
      case (Inr t)
      then show False
        using a u \<open>redistribute_messages vs1 = Inr vs2\<close> by (simp add: pregel_superstep_def)
    qed
  qed
qed

lemma social_rounds_no_ValueError:
  assumes "list_all social_wf vs"
  shows "pregel_rounds k (SocialVertex_update nsteps a sp) (Some social_stats) (vs, g, data)
           \<noteq> Inl ValueError"
  using assms
proof (induction k arbitrary: vs g data)
  case 0
  show ?case by simp
next
  case (Suc k)
  show ?case
  proof (cases "check_active vs")
    case False
    then show ?thesis by simp
  next
    case True
    show ?thesis
    proof (cases "pregel_superstep (SocialVertex_update nsteps a sp) (Some social_stats) (vs, g, data)")
      case (Inl e)
      then have "e \<noteq> ValueError"
        using social_superstep_no_ValueError [OF Suc.prems, of nsteps a sp g data] by auto
      then show ?thesis using True Inl by simp
    next
      case (Inr st1)
      obtain vs1 g1 d1 where st1: "st1 = (vs1, g1, d1)" by (cases st1) auto
      have "list_all social_wf vs1"
        using social_superstep_wf [OF Inr [unfolded st1] Suc.prems] .
      then show ?thesis
        using True Inr st1 Suc.IH [of vs1 g1 d1] by simp
    qed
  qed
qed

lemma social_rounds_wf:
  assumes "pregel_rounds k (SocialVertex_update nsteps a sp) stats_fn (vs, g, data)
             = Inr (vs', g', data')"
    and "list_all social_wf vs"
  shows "list_all social_wf vs'"
proof -
  have "list_all social_wf (fst (vs', g', data'))"
  proof (rule pregel_rounds_invariant [OF assms(1), where P = "\<lambda>st. list_all social_wf (fst st)"])
    show "list_all social_wf (fst (vs, g, data))" using assms(2) by simp
  next
    fix st st' :: "string vertex list \<times> rng \<times> (int \<times> rat \<times> rat) list"
    assume "list_all social_wf (fst st)"
      and "pregel_superstep (SocialVertex_update nsteps a sp) stats_fn st = Inr st'"
    then show "list_all social_wf (fst st')"
      using social_superstep_wf [of nsteps a sp stats_fn "fst st" "fst (snd st)" "snd (snd st)"
          "fst st'" "fst (snd st')" "snd (snd st')"]
      by simp
  qed
  then show ?thesis by simp
qed

text \<open>
  C9: in a run of the social simulation whose vertices start with a value \<open>"F"\<close> or
  \<open>"M"\<close> and with buffers that hold only such payloads (the empty buffers of new
  vertices, or messages emitted by social vertices), the \<open>ValueError\<close> of
  \<open>SocialVertex.update\<close> is never raised: no number of rounds ends in it, the run does
  not end in it, every vertex list the run reaches is again of that kind, so that
  every update on it returns; and every message an update emits below the ceiling
  carries the value its vertex has after the update.
\<close>

theorem social_run_never_ValueError:
  assumes "list_all social_wf vertices"
  shows "pregel_rounds k (SocialVertex_update nsteps a sp) (Some social_stats) (vertices, g, [])
           \<noteq> Inl ValueError \<and>
         pregel_run (SocialVertex_update nsteps a sp) (Some social_stats) (vertices, g, [])
           \<noteq> Some (Inl ValueError) \<and>
         social_pregel nsteps a sp vertices g \<noteq> Some (Inl ValueError) \<and>
         (\<forall>vs' g' data'.
            pregel_rounds k (SocialVertex_update nsteps a sp) (Some social_stats) (vertices, g, [])
              = Inr (vs', g', data') \<longrightarrow>
            list_all social_wf vs' \<and>
            (\<forall>v\<in>set vs'. \<forall>g0. \<exists>v' g1. SocialVertex_update nsteps a sp v g0 = Inr (v', g1))) \<and>
         (\<forall>self g0 v' g1 d w msg.
            SocialVertex_update nsteps a sp self g0 = Inr (v', g1) \<and> superstep self < nsteps \<and>
            (d, w, msg) \<in> set (outgoing_messages v') \<longrightarrow> msg = vertex_value v')"
proof -
  let ?upd = "SocialVertex_update nsteps a sp"
  have rounds: "pregel_rounds j ?upd (Some social_stats) (vertices, g, []) \<noteq> Inl ValueError" for j
    using assms by (rule social_rounds_no_ValueError)
  have run: "pregel_run ?upd (Some social_stats) (vertices, g, []) \<noteq> Some (Inl ValueError)"
  proof
    assume "pregel_run ?upd (Some social_stats) (vertices, g, []) = Some (Inl ValueError)"
    then obtain j where "pregel_rounds j ?upd (Some social_stats) (vertices, g, []) = Inl ValueError"
      using pregel_run_rounds by blast
    then show False using rounds by simp
  qed
  have main: "social_pregel nsteps a sp vertices g \<noteq> Some (Inl ValueError)"
    using run by (auto simp add: social_pregel_def split: option.splits sum.splits)
  have reach: "\<forall>vs' g' data'.
            pregel_rounds k ?upd (Some social_stats) (vertices, g, []) = Inr (vs', g', data') \<longrightarrow>
            list_all social_wf vs' \<and>
            (\<forall>v\<in>set vs'. \<forall>g0. \<exists>v' g1. ?upd v g0 = Inr (v', g1))"
  proof (intro allI impI)
    fix vs' g' data'
    assume "pregel_rounds k ?upd (Some social_stats) (vertices, g, []) = Inr (vs', g', data')"
    then have wf: "list_all social_wf vs'"
      using assms by (rule social_rounds_wf)
    moreover have "\<forall>v\<in>set vs'. \<forall>g0. \<exists>v' g1. ?upd v g0 = Inr (v', g1)"
      using wf social_update_wf by (fastforce simp add: list_all_iff)
    ultimately show "list_all social_wf vs' \<and>
            (\<forall>v\<in>set vs'. \<forall>g0. \<exists>v' g1. ?upd v g0 = Inr (v', g1))"
      by simp
  qed
  have emit: "\<forall>self g0 v' g1 d w msg.
            ?upd self g0 = Inr (v', g1) \<and> superstep self < nsteps \<and>
            (d, w, msg) \<in> set (outgoing_messages v') \<longrightarrow> msg = vertex_value v'"
    using social_update_emits_own_value by blast
  show ?thesis
    using rounds [of k] run main reach emit by blast
qed

theorem social_run_never_ValueError_witness:
  "list_all social_wf
     [\<lparr>vertex_id = 0, vertex_value = ''M'', out_vertices = [1], incoming_messages = [],
       outgoing_messages = [], active = True, superstep = 0\<rparr>,
      \<lparr>vertex_id = 1, vertex_value = ''F'', out_vertices = [0], incoming_messages = [],
       outgoing_messages = [], active = True, superstep = 0\<rparr>] \<and>
   pregel_rounds 7 (SocialVertex_update 30 1 1) (Some social_stats)
     ([\<lparr>vertex_id = 0, vertex_value = ''M'', out_vertices = [1], incoming_messages = [],
        outgoing_messages = [], active = True, superstep = 0\<rparr>,
       \<lparr>vertex_id = 1, vertex_value = ''F'', out_vertices = [0], incoming_messages = [],
        outgoing_messages = [], active = True, superstep = 0\<rparr>], \<lambda>n. 0, [])
     \<noteq> Inl ValueError \<and>
   social_pregel 30 1 1
     [\<lparr>vertex_id = 0, vertex_value = ''M'', out_vertices = [1], incoming_messages = [],
       outgoing_messages = [], active = True, superstep = 0\<rparr>,
      \<lparr>vertex_id = 1, vertex_value = ''F'', out_vertices = [0], incoming_messages = [],
       outgoing_messages = [], active = True, superstep = 0\<rparr>] (\<lambda>n. 0)
     \<noteq> Some (Inl ValueError)"
proof -
  let ?vs0 = "[\<lparr>vertex_id = 0, vertex_value = ''M'', out_vertices = [1], incoming_messages = [],
        outgoing_messages = [], active = True, superstep = 0\<rparr>,
       \<lparr>vertex_id = 1, vertex_value = ''F'', out_vertices = [0], incoming_messages = [],
        outgoing_messages = [], active = True, superstep = 0\<rparr>] :: string vertex list"
  have h: "list_all social_wf ?vs0"
    by (simp add: social_wf_def labels_only_def)
  note t = social_run_never_ValueError [OF h, of 7 30 1 1 "\<lambda>n. 0"]
  show ?thesis
    using h t [THEN conjunct1] t [THEN conjunct2, THEN conjunct2, THEN conjunct1]
    by (intro conjI)
qed

section \<open>A non-switched vertex in a run: the switch rule\<close>

text \<open>
  C3: in a run of the social simulation (vertices that start with a value \<open>"F"\<close> or
  \<open>"M"\<close> and with buffers holding only such payloads, after any number of rounds), a
  non-switched vertex (value \<open>"F"\<close>) updated at a superstep below \<open>nsteps\<close>, whose
  incoming messages carry \<open>f\<close> times the payload \<open>"F"\<close> and \<open>m\<close> times the payload \<open>"M"\<close>,
  ends with value \<open>"M"\<close> if and only if \<open>m > f\<close> and the one draw made by \<open>switch\<close> is
  below \<open>sp\<close>; otherwise its value stays \<open>"F"\<close> (the messages it then sends are those of
  the list comprehension, drawn after the switch).  \<open>switch\<close> itself returns true only
  when its second argument exceeds the first, and then exactly when its draw is below
  \<open>sp\<close>; it makes no draw otherwise.  With the draw uniform on a grid of \<open>N\<close> points and
  \<open>sp = j/N\<close>, the share of outcomes in which the vertex switches is \<open>sp\<close> if \<open>m > f\<close> and
  0 if \<open>m \<le> f\<close>.
\<close>

theorem nonswitched_switch_rule:
  assumes "list_all social_wf vertices"
    and "pregel_rounds k (SocialVertex_update nsteps a sp) stats_fn (vertices, g0, data)
           = Inr (vs, g1, data1)"
    and "self \<in> set vs"
    and "vertex_value self = ''F''" and "superstep self < nsteps"
    and "f = payload_count ''F'' (incoming_messages self)"
    and "m = payload_count ''M'' (incoming_messages self)"
  shows "SocialVertex_update nsteps a sp self g =
           (let val = (if f < m \<and> g 0 < sp then ''M'' else ''F'');
                out = send_loop a val (out_vertices self)
                        (if f < m then (\<lambda>n. g (Suc n)) else g)
            in Inr (self\<lparr>vertex_value := val, outgoing_messages := fst out\<rparr>, snd out)) \<and>
         switch sp f' m' g = (f' < m' \<and> g 0 < sp, if f' < m' then (\<lambda>n. g (Suc n)) else g) \<and>
         (0 < N \<and> j \<le> N \<and> sp = of_nat j / of_nat N \<longrightarrow>
            of_nat (card {d. d < N \<and>
                             (\<exists>v' g'. SocialVertex_update nsteps a sp self (grid_rng N [d])
                                         = Inr (v', g') \<and> vertex_value v' = ''M'')}) / of_nat N
              = (if f < m then sp else 0))"
proof (intro conjI impI)
  have "list_all social_wf vs"
    using assms(2,1) by (rule social_rounds_wf)
  then have l: "labels_only (incoming_messages self)"
    using assms(3) by (simp add: list_all_iff social_wf_def)
  show "SocialVertex_update nsteps a sp self g =
           (let val = (if f < m \<and> g 0 < sp then ''M'' else ''F'');
                out = send_loop a val (out_vertices self)
                        (if f < m then (\<lambda>n. g (Suc n)) else g)
            in Inr (self\<lparr>vertex_value := val, outgoing_messages := fst out\<rparr>, snd out))"
    using assms(4-7) l by (simp add: social_update_not_M Let_def)
  show "switch sp f' m' g = (f' < m' \<and> g 0 < sp, if f' < m' then (\<lambda>n. g (Suc n)) else g)"
    by (rule switch_eq)
  assume c: "0 < N \<and> j \<le> N \<and> sp = of_nat j / of_nat N"
  have "{d. d < N \<and> (\<exists>v' g'. SocialVertex_update nsteps a sp self (grid_rng N [d])
                                = Inr (v', g') \<and> vertex_value v' = ''M'')}
        = {d. d < N \<and> f < m \<and> grid_rng N [d] 0 < of_nat j / of_nat N}"
    using assms(6,7) c
    by (simp only: social_update_value [OF assms(4,5) l])
  then have "card {d. d < N \<and> (\<exists>v' g'. SocialVertex_update nsteps a sp self (grid_rng N [d])
                                = Inr (v', g') \<and> vertex_value v' = ''M'')} = (if f < m then j else 0)"
    using c by (simp only: card_grid_below)
  then show "of_nat (card {d. d < N \<and>
                             (\<exists>v' g'. SocialVertex_update nsteps a sp self (grid_rng N [d])
                                         = Inr (v', g') \<and> vertex_value v' = ''M'')}) / of_nat N
              = (if f < m then sp else 0)"
    using c by simp
qed

theorem nonswitched_switch_rule_witness:
  "list_all social_wf
     [\<lparr>vertex_id = 0, vertex_value = ''M'', out_vertices = [1], incoming_messages = [],
       outgoing_messages = [], active = True, superstep = 0\<rparr>,
      \<lparr>vertex_id = 1, vertex_value = ''F'', out_vertices = [0], incoming_messages = [],
       outgoing_messages = [], active = True, superstep = 0\<rparr>] \<and>
   pregel_rounds (Suc 0) (SocialVertex_update 30 1 (9 / 10)) (Some social_stats)
     ([\<lparr>vertex_id = 0, vertex_value = ''M'', out_vertices = [1], incoming_messages = [],
        outgoing_messages = [], active = True, superstep = 0\<rparr>,
       \<lparr>vertex_id = 1, vertex_value = ''F'', out_vertices = [0], incoming_messages = [],
        outgoing_messages = [], active = True, superstep = 0\<rparr>], \<lambda>n. 1 / 2, [])
   = Inr ([\<lparr>vertex_id = 0, vertex_value = ''M'', out_vertices = [1],
            incoming_messages = [(1, 1, ''F'')], outgoing_messages = [], active = True,
            superstep = 1\<rparr>,
           \<lparr>vertex_id = 1, vertex_value = ''F'', out_vertices = [0],
            incoming_messages = [(0, 1, ''M'')], outgoing_messages = [], active = True,
            superstep = 1\<rparr>], \<lambda>n. 1 / 2, [(0, 1 / 2, 1 / 2)]) \<and>
   SocialVertex_update 30 1 (9 / 10)
     \<lparr>vertex_id = 1, vertex_value = ''F'', out_vertices = [0],
      incoming_messages = [(0, 1, ''M'')], outgoing_messages = [], active = True,
      superstep = 1\<rparr> (\<lambda>n. 1 / 2)
   = Inr (\<lparr>vertex_id = 1, vertex_value = ''M'', out_vertices = [0],
           incoming_messages = [(0, 1, ''M'')], outgoing_messages = [(0, 1, ''M'')],
           active = True, superstep = 1\<rparr>, \<lambda>n. 1 / 2) \<and>
   switch (9 / 10) 0 1 (\<lambda>n. 1 / 2) = (True, \<lambda>n. 1 / 2) \<and>
   of_nat (card {d. d < 10 \<and>
                    (\<exists>v' g'. SocialVertex_update 30 1 (9 / 10)
                       \<lparr>vertex_id = 1, vertex_value = ''F'', out_vertices = [0],
                        incoming_messages = [(0, 1, ''M'')], outgoing_messages = [],
                        active = True, superstep = 1\<rparr>
                       (grid_rng 10 [d]) = Inr (v', g') \<and> vertex_value v' = ''M'')}) / of_nat 10
     = (9 / 10 :: rat)"
proof -
  let ?vs0 = "[\<lparr>vertex_id = 0, vertex_value = ''M'', out_vertices = [1], incoming_messages = [],
        outgoing_messages = [], active = True, superstep = 0\<rparr>,
       \<lparr>vertex_id = 1, vertex_value = ''F'', out_vertices = [0], incoming_messages = [],
        outgoing_messages = [], active = True, superstep = 0\<rparr>] :: string vertex list"
  let ?w = "\<lparr>vertex_id = 0, vertex_value = ''M'', out_vertices = [1],
            incoming_messages = [(1, 1, ''F'')], outgoing_messages = [], active = True,
            superstep = 1\<rparr> :: string vertex"
  let ?v = "\<lparr>vertex_id = 1, vertex_value = ''F'', out_vertices = [0],
            incoming_messages = [(0, 1, ''M'')], outgoing_messages = [], active = True,
            superstep = 1\<rparr> :: string vertex"
  have h: "list_all social_wf ?vs0"
    by (simp add: social_wf_def labels_only_def)
  have r: "pregel_rounds (Suc 0) (SocialVertex_update 30 1 (9 / 10)) (Some social_stats)
             (?vs0, \<lambda>n. 1 / 2, []) = Inr ([?w, ?v], \<lambda>n. 1 / 2, [(0, 1 / 2, 1 / 2)])"
    by (simp add: check_active_def pregel_superstep_def SocialVertex_update_def
        redistribute_messages_def inbox_def social_stats_def truediv_def sum_bool_def
        switch_def random_random_def)
  have t: "SocialVertex_update 30 1 (9 / 10) ?v (\<lambda>n. 1 / 2) =
           (let val = (if (0::int) < 1 \<and> (1 / 2 :: rat) < 9 / 10 then ''M'' else ''F'');
                out = send_loop 1 val (out_vertices ?v)
                        (if (0::int) < 1 then (\<lambda>n. 1 / 2) else (\<lambda>n. 1 / 2))
            in Inr (?v\<lparr>vertex_value := val, outgoing_messages := fst out\<rparr>, snd out)) \<and>
         switch (9 / 10) 0 1 (\<lambda>n. 1 / 2)
           = ((0::int) < 1 \<and> (1 / 2 :: rat) < 9 / 10,
              if (0::int) < 1 then (\<lambda>n. 1 / 2) else (\<lambda>n. 1 / 2)) \<and>
         (0 < (10::nat) \<and> (9::nat) \<le> 10 \<and> (9 / 10 :: rat) = of_nat 9 / of_nat 10 \<longrightarrow>
            of_nat (card {d. d < 10 \<and>
                             (\<exists>v' g'. SocialVertex_update 30 1 (9 / 10) ?v (grid_rng 10 [d])
                                         = Inr (v', g') \<and> vertex_value v' = ''M'')}) / of_nat 10
              = (if (0::int) < 1 then (9 / 10 :: rat) else 0))"
    by (rule nonswitched_switch_rule
          [OF h r, where self = ?v and f = 0 and m = 1 and g = "\<lambda>n. 1 / 2"
             and f' = 0 and m' = 1 and N = 10 and j = 9])
       (simp_all add: payload_count_def)
  have a: "SocialVertex_update 30 1 (9 / 10) ?v (\<lambda>n. 1 / 2)
           = Inr (?v\<lparr>vertex_value := ''M'', outgoing_messages := [(0, 1, ''M'')]\<rparr>, \<lambda>n. 1 / 2)"
    using t [THEN conjunct1] by (simp add: random_random_def Let_def)
  have b: "switch (9 / 10) 0 1 (\<lambda>n. 1 / 2) = (True, \<lambda>n. 1 / 2)"
    using t [THEN conjunct2, THEN conjunct1] by simp
  have "0 < (10::nat) \<and> (9::nat) \<le> 10 \<and> (9 / 10 :: rat) = of_nat 9 / of_nat 10"
    by simp
  then have c: "of_nat (card {d. d < 10 \<and>
                             (\<exists>v' g'. SocialVertex_update 30 1 (9 / 10) ?v (grid_rng 10 [d])
                                         = Inr (v', g') \<and> vertex_value v' = ''M'')}) / of_nat 10
              = (if (0::int) < 1 then (9 / 10 :: rat) else 0)"
    by (rule t [THEN conjunct2, THEN conjunct2, THEN mp])
  have c': "(if (0::int) < 1 then (9 / 10 :: rat) else 0) = 9 / 10" by simp
  have a': "SocialVertex_update 30 1 (9 / 10) ?v (\<lambda>n. 1 / 2)
           = Inr (\<lparr>vertex_id = 1, vertex_value = ''M'', out_vertices = [0],
                   incoming_messages = [(0, 1, ''M'')], outgoing_messages = [(0, 1, ''M'')],
                   active = True, superstep = 1\<rparr>, \<lambda>n. 1 / 2)"
    using a by simp
  have c'': "of_nat (card {d. d < 10 \<and>
                             (\<exists>v' g'. SocialVertex_update 30 1 (9 / 10) ?v (grid_rng 10 [d])
                                         = Inr (v', g') \<and> vertex_value v' = ''M'')}) / of_nat 10
              = (9 / 10 :: rat)"
    using c c' by (rule trans)
  show ?thesis
    by (rule conjI [OF h conjI [OF r conjI [OF a' conjI [OF b c'']]]])
qed

section \<open>The step ceiling\<close>

lemma epidemic_update_ceiling:
  "nsteps \<le> superstep self \<Longrightarrow> superstep self \<noteq> 0 \<Longrightarrow>
     EpidemicVertex_update i td p nsteps self g = (self\<lparr>active := False\<rparr>, g)"
  by (simp add: EpidemicVertex_update_def)

lemma social_update_ceiling:
  "nsteps \<le> superstep self \<Longrightarrow>
     SocialVertex_update nsteps a sp self g = Inr (self\<lparr>active := False\<rparr>, g)"
  by (simp add: SocialVertex_update_def)

lemma deactivate_inactive: "\<not> active v \<Longrightarrow> v\<lparr>active := False\<rparr> = v"
  by simp

lemma update_active_deactivate:
  assumes "\<And>v g. v \<in> set vs \<Longrightarrow> active v \<Longrightarrow> upd v g = Inr (v\<lparr>active := False\<rparr>, g)"
  shows "update_active upd vs g = Inr (map (\<lambda>v. v\<lparr>active := False\<rparr>) vs, g)"
  using assms by (induction vs) simp_all

lemma sum_bool_map:
  "(\<And>v. v \<in> set vs \<Longrightarrow> c (f v) = c v) \<Longrightarrow> sum_bool c (map f vs) = sum_bool c vs"
  by (induction vs) (simp_all add: sum_bool_def)

lemma epidemic_stats_map:
  assumes "\<And>v. vertex_value (f v) = vertex_value v" and "\<And>v. superstep (f v) = superstep v"
  shows "epidemic_stats (map f vs) = epidemic_stats vs"
proof (cases vs)
  case Nil
  then show ?thesis by simp
next
  case (Cons v ws)
  have a: "sum_bool (\<lambda>v. 0 \<le> vertex_value v) (map f vs) = sum_bool (\<lambda>v. 0 \<le> vertex_value v) vs"
    by (rule sum_bool_map) (simp add: assms(1))
  have b: "sum_bool (\<lambda>v. 0 < vertex_value v) (map f vs) = sum_bool (\<lambda>v. 0 < vertex_value v) vs"
    by (rule sum_bool_map) (simp add: assms(1))
  show ?thesis
    using a b unfolding Cons by (simp add: epidemic_stats_Cons assms(2) del: of_nat_Suc)
qed

lemma social_stats_map:
  assumes "\<And>v. vertex_value (f v) = vertex_value v" and "\<And>v. superstep (f v) = superstep v"
  shows "social_stats (map f vs) = social_stats vs"
proof (cases vs)
  case Nil
  then show ?thesis by simp
next
  case (Cons v ws)
  have a: "sum_bool (\<lambda>v. vertex_value v = ''F'') (map f vs) = sum_bool (\<lambda>v. vertex_value v = ''F'') vs"
    by (rule sum_bool_map) (simp add: assms(1))
  have b: "sum_bool (\<lambda>v. vertex_value v = ''M'') (map f vs) = sum_bool (\<lambda>v. vertex_value v = ''M'') vs"
    by (rule sum_bool_map) (simp add: assms(1))
  show ?thesis
    using a b unfolding Cons by (simp add: social_stats_Cons assms(2) del: of_nat_Suc)
qed

lemma check_active_nonempty: "check_active vs \<Longrightarrow> vs \<noteq> []"
  by (auto simp add: check_active_def)

lemma check_active_deactivated:
  "\<not> check_active (map (\<lambda>v. v\<lparr>active := False, incoming_messages := inc v,
                                 outgoing_messages := out v, superstep := s v\<rparr>) vs)"
  by (simp add: check_active_def list_ex_iff)

lemma ceiling_round:
  assumes upd: "\<And>v g. v \<in> set vs \<Longrightarrow> active v \<Longrightarrow> upd v g = Inr (v\<lparr>active := False\<rparr>, g)"
    and out: "\<forall>v\<in>set vs. outgoing_messages v = []"
    and stats: "\<And>f. (\<And>v. vertex_value (f v) = vertex_value v) \<Longrightarrow>
                  (\<And>v. superstep (f v) = superstep v) \<Longrightarrow> stats (map f vs) = Inr t"
  shows "pregel_superstep upd (Some stats) (vs, g, data) =
           Inr (map (\<lambda>v. v\<lparr>active := False, incoming_messages := [],
                            outgoing_messages := [], superstep := superstep v + 1\<rparr>) vs,
                g, data @ [t])"
proof -
  have u: "update_active upd vs g = Inr (map (\<lambda>v. v\<lparr>active := False\<rparr>) vs, g)"
    using upd by (rule update_active_deactivate)
  have r: "redistribute_messages (map (\<lambda>v. v\<lparr>active := False\<rparr>) vs) =
             Inr (map (\<lambda>v. v\<lparr>active := False, incoming_messages := [],
                              outgoing_messages := []\<rparr>) vs)"
    using out by (subst redistribute_messages_no_outgoing) (simp_all add: comp_def)
  have s: "stats (map (\<lambda>v. v\<lparr>active := False, incoming_messages := [],
                              outgoing_messages := []\<rparr>) vs) = Inr t"
    by (rule stats) simp_all
  show ?thesis
    by (simp add: pregel_superstep_def u r s comp_def)
qed

lemma ceiling_run:
  assumes upd: "\<And>v g. v \<in> set vs \<Longrightarrow> active v \<Longrightarrow> upd v g = Inr (v\<lparr>active := False\<rparr>, g)"
    and out: "\<forall>v\<in>set vs. outgoing_messages v = []"
    and stats: "\<And>f. (\<And>v. vertex_value (f v) = vertex_value v) \<Longrightarrow>
                  (\<And>v. superstep (f v) = superstep v) \<Longrightarrow> stats (map f vs) = Inr t"
    and act: "check_active vs"
  shows "pregel_run upd (Some stats) (vs, g, data) =
           Some (Inr (map (\<lambda>v. v\<lparr>active := False, incoming_messages := [],
                            outgoing_messages := [], superstep := superstep v + 1\<rparr>) vs,
                g, data @ [t]))"
proof -
  let ?vs' = "map (\<lambda>v. v\<lparr>active := False, incoming_messages := [],
                            outgoing_messages := [], superstep := superstep v + 1\<rparr>) vs"
  have r: "pregel_superstep upd (Some stats) (vs, g, data) = Inr (?vs', g, data @ [t])"
    using upd out stats by (rule ceiling_round)
  have n: "\<not> check_active ?vs'"
    by (rule check_active_deactivated)
  have "pregel_run upd (Some stats) (?vs', g, data @ [t]) = Some (Inr (?vs', g, data @ [t]))"
    using n by (subst pregel_run.simps) simp
  then show ?thesis
    using act r by (subst pregel_run.simps) simp
qed

text \<open>
  C7 (as stated): every update invoked at a superstep at or beyond \<open>nsteps\<close> would set
  \<open>active\<close> to false and change nothing else.  With the ceiling \<open>nsteps = 0\<close>, the update
  of an epidemic vertex at superstep 0 is at the ceiling, yet it takes the
  initialisation branch: the value changes from 5 to 0 and the vertex stays active.
\<close>

theorem ceiling_deactivates_counterexample:
  "EpidemicVertex_update 1 1 (1 / 10) 0
     \<lparr>vertex_id = 3, vertex_value = 5, out_vertices = [], incoming_messages = [],
      outgoing_messages = [], active = True, superstep = 0\<rparr> (const_rng 0)
   = (\<lparr>vertex_id = 3, vertex_value = 0, out_vertices = [], incoming_messages = [],
       outgoing_messages = [], active = True, superstep = 0\<rparr>, const_rng 0)"
  by (simp add: EpidemicVertex_update_def)

text \<open>
  C7 (amended): an update invoked at a superstep at or beyond \<open>nsteps\<close> (for an epidemic
  vertex: other than superstep 0, where the update initialises the value whatever
  \<open>nsteps\<close> is) sets \<open>active\<close> to false and changes nothing else: no other field of the
  vertex, and not the generator.  So when some vertex is still active, every vertex
  is at such a superstep and the outgoing buffers are empty (as the engine leaves them
  after every round), the run makes exactly one more round: every vertex is inactive
  after it, one statistics tuple is appended, and the run returns.
\<close>

theorem ceiling_deactivates:
  "(nsteps \<le> superstep self \<and> superstep self \<noteq> 0 \<longrightarrow>
      EpidemicVertex_update i td p nsteps self g = (self\<lparr>active := False\<rparr>, g)) \<and>
   (nsteps \<le> superstep sself \<longrightarrow>
      SocialVertex_update nsteps a sp sself g = Inr (sself\<lparr>active := False\<rparr>, g)) \<and>
   (check_active vs \<and>
    (\<forall>v\<in>set vs. nsteps \<le> superstep v \<and> superstep v \<noteq> 0 \<and> outgoing_messages v = []) \<longrightarrow>
      (\<exists>t. epidemic_stats vs = Inr t \<and>
           pregel_run (epidemic_upd i td p nsteps) (Some epidemic_stats) (vs, g, data) =
             Some (Inr (map (\<lambda>v. v\<lparr>active := False, incoming_messages := [],
                                   outgoing_messages := [], superstep := superstep v + 1\<rparr>) vs,
                        g, data @ [t])))) \<and>
   (check_active svs \<and>
    (\<forall>v\<in>set svs. nsteps \<le> superstep v \<and> outgoing_messages v = []) \<longrightarrow>
      (\<exists>t. social_stats svs = Inr t \<and>
           pregel_run (SocialVertex_update nsteps a sp) (Some social_stats) (svs, g, data) =
             Some (Inr (map (\<lambda>v. v\<lparr>active := False, incoming_messages := [],
                                   outgoing_messages := [], superstep := superstep v + 1\<rparr>) svs,
                        g, data @ [t]))))"
proof (intro conjI impI)
  assume "nsteps \<le> superstep self \<and> superstep self \<noteq> 0"
  then show "EpidemicVertex_update i td p nsteps self g = (self\<lparr>active := False\<rparr>, g)"
    by (simp add: epidemic_update_ceiling)
next
  assume "nsteps \<le> superstep sself"
  then show "SocialVertex_update nsteps a sp sself g = Inr (sself\<lparr>active := False\<rparr>, g)"
    by (simp add: social_update_ceiling)
next
  assume a: "check_active vs \<and>
    (\<forall>v\<in>set vs. nsteps \<le> superstep v \<and> superstep v \<noteq> 0 \<and> outgoing_messages v = [])"
  then have "vs \<noteq> []" by (simp add: check_active_nonempty)
  then obtain t where t: "epidemic_stats vs = Inr t"
    by (cases vs) (auto simp add: epidemic_stats_Cons)
  have "pregel_run (epidemic_upd i td p nsteps) (Some epidemic_stats) (vs, g, data) =
             Some (Inr (map (\<lambda>v. v\<lparr>active := False, incoming_messages := [],
                                   outgoing_messages := [], superstep := superstep v + 1\<rparr>) vs,
                        g, data @ [t]))"
  proof (rule ceiling_run)
    fix v g0
    assume "v \<in> set vs"
    then show "epidemic_upd i td p nsteps v g0 = Inr (v\<lparr>active := False\<rparr>, g0)"
      using a by (simp add: epidemic_upd_def epidemic_update_ceiling)
  next
    show "\<forall>v\<in>set vs. outgoing_messages v = []" using a by simp
  next
    fix f :: "int vertex \<Rightarrow> int vertex"
    assume "\<And>v. vertex_value (f v) = vertex_value v" and "\<And>v. superstep (f v) = superstep v"
    then show "epidemic_stats (map f vs) = Inr t"
      using t by (simp add: epidemic_stats_map)
  next
    show "check_active vs" using a by simp
  qed
  then show "\<exists>t. epidemic_stats vs = Inr t \<and>
           pregel_run (epidemic_upd i td p nsteps) (Some epidemic_stats) (vs, g, data) =
             Some (Inr (map (\<lambda>v. v\<lparr>active := False, incoming_messages := [],
                                   outgoing_messages := [], superstep := superstep v + 1\<rparr>) vs,
                        g, data @ [t]))"
    using t by blast
next
  assume a: "check_active svs \<and>
    (\<forall>v\<in>set svs. nsteps \<le> superstep v \<and> outgoing_messages v = [])"
  then have "svs \<noteq> []" by (simp add: check_active_nonempty)
  then obtain t where t: "social_stats svs = Inr t"
    by (cases svs) (auto simp add: social_stats_Cons)
  have "pregel_run (SocialVertex_update nsteps a sp) (Some social_stats) (svs, g, data) =
             Some (Inr (map (\<lambda>v. v\<lparr>active := False, incoming_messages := [],
                                   outgoing_messages := [], superstep := superstep v + 1\<rparr>) svs,
                        g, data @ [t]))"
  proof (rule ceiling_run)
    fix v g0
    assume "v \<in> set svs"
    then show "SocialVertex_update nsteps a sp v g0 = Inr (v\<lparr>active := False\<rparr>, g0)"
      using a by (simp add: social_update_ceiling)
  next
    show "\<forall>v\<in>set svs. outgoing_messages v = []" using a by simp
  next
    fix f :: "string vertex \<Rightarrow> string vertex"
    assume "\<And>v. vertex_value (f v) = vertex_value v" and "\<And>v. superstep (f v) = superstep v"
    then show "social_stats (map f svs) = Inr t"
      using t by (simp add: social_stats_map)
  next
    show "check_active svs" using a by simp
  qed
  then show "\<exists>t. social_stats svs = Inr t \<and>
           pregel_run (SocialVertex_update nsteps a sp) (Some social_stats) (svs, g, data) =
             Some (Inr (map (\<lambda>v. v\<lparr>active := False, incoming_messages := [],
                                   outgoing_messages := [], superstep := superstep v + 1\<rparr>) svs,
                        g, data @ [t]))"
    using t by blast
qed

theorem ceiling_deactivates_witness:
  "EpidemicVertex_update 1 1 (1 / 10) 3
     \<lparr>vertex_id = 0, vertex_value = 2, out_vertices = [1],
      incoming_messages = [(1, 1, ''sneeze'')], outgoing_messages = [], active = True,
      superstep = 3\<rparr> (\<lambda>n. 0)
   = (\<lparr>vertex_id = 0, vertex_value = 2, out_vertices = [1],
       incoming_messages = [(1, 1, ''sneeze'')], outgoing_messages = [], active = False,
       superstep = 3\<rparr>, \<lambda>n. 0) \<and>
   SocialVertex_update 3 1 1
     \<lparr>vertex_id = 1, vertex_value = ''F'', out_vertices = [0],
      incoming_messages = [(0, 1, ''M'')], outgoing_messages = [], active = True,
      superstep = 3\<rparr> (\<lambda>n. 0)
   = Inr (\<lparr>vertex_id = 1, vertex_value = ''F'', out_vertices = [0],
           incoming_messages = [(0, 1, ''M'')], outgoing_messages = [], active = False,
           superstep = 3\<rparr>, \<lambda>n. 0) \<and>
   pregel_run (epidemic_upd 1 1 (1 / 10) 3) (Some epidemic_stats)
     ([\<lparr>vertex_id = 0, vertex_value = 2, out_vertices = [1],
        incoming_messages = [(1, 1, ''sneeze'')], outgoing_messages = [], active = True,
        superstep = 3\<rparr>,
       \<lparr>vertex_id = 1, vertex_value = - 1, out_vertices = [0], incoming_messages = [],
        outgoing_messages = [], active = False, superstep = 3\<rparr>], \<lambda>n. 0, [])
   = Some (Inr ([\<lparr>vertex_id = 0, vertex_value = 2, out_vertices = [1],
                  incoming_messages = [], outgoing_messages = [], active = False,
                  superstep = 4\<rparr>,
                 \<lparr>vertex_id = 1, vertex_value = - 1, out_vertices = [0],
                  incoming_messages = [], outgoing_messages = [], active = False,
                  superstep = 4\<rparr>], \<lambda>n. 0, [(3, 1 / 2, 1 / 2)])) \<and>
   pregel_run (SocialVertex_update 3 1 1) (Some social_stats)
     ([\<lparr>vertex_id = 0, vertex_value = ''M'', out_vertices = [1],
        incoming_messages = [(1, 1, ''F'')], outgoing_messages = [], active = True,
        superstep = 3\<rparr>,
       \<lparr>vertex_id = 1, vertex_value = ''F'', out_vertices = [0],
        incoming_messages = [(0, 1, ''M'')], outgoing_messages = [], active = True,
        superstep = 3\<rparr>], \<lambda>n. 0, [])
   = Some (Inr ([\<lparr>vertex_id = 0, vertex_value = ''M'', out_vertices = [1],
                  incoming_messages = [], outgoing_messages = [], active = False,
                  superstep = 4\<rparr>,
                 \<lparr>vertex_id = 1, vertex_value = ''F'', out_vertices = [0],
                  incoming_messages = [], outgoing_messages = [], active = False,
                  superstep = 4\<rparr>], \<lambda>n. 0, [(3, 1 / 2, 1 / 2)]))"
proof -
  let ?e0 = "\<lparr>vertex_id = 0, vertex_value = 2, out_vertices = [1],
        incoming_messages = [(1, 1, ''sneeze'')], outgoing_messages = [], active = True,
        superstep = 3\<rparr> :: int vertex"
  let ?e1 = "\<lparr>vertex_id = 1, vertex_value = - 1, out_vertices = [0], incoming_messages = [],
        outgoing_messages = [], active = False, superstep = 3\<rparr> :: int vertex"
  let ?s0 = "\<lparr>vertex_id = 0, vertex_value = ''M'', out_vertices = [1],
        incoming_messages = [(1, 1, ''F'')], outgoing_messages = [], active = True,
        superstep = 3\<rparr> :: string vertex"
  let ?s1 = "\<lparr>vertex_id = 1, vertex_value = ''F'', out_vertices = [0],
        incoming_messages = [(0, 1, ''M'')], outgoing_messages = [], active = True,
        superstep = 3\<rparr> :: string vertex"
  note t = ceiling_deactivates
      [where nsteps = 3 and self = ?e0 and sself = ?s1 and i = 1 and td = 1 and p = "1 / 10"
         and a = 1 and sp = 1 and g = "\<lambda>n. 0" and vs = "[?e0, ?e1]" and svs = "[?s0, ?s1]"
         and data = "[]"]
  have es: "epidemic_stats [?e0, ?e1] = Inr (3, 1 / 2, 1 / 2)"
    by (simp add: epidemic_stats_Cons sum_bool_def)
  have ss: "social_stats [?s0, ?s1] = Inr (3, 1 / 2, 1 / 2)"
    by (simp add: social_stats_Cons sum_bool_def)
  have c1: "EpidemicVertex_update 1 1 (1 / 10) 3 ?e0 (\<lambda>n. 0) = (?e0\<lparr>active := False\<rparr>, \<lambda>n. 0)"
    using t [THEN conjunct1] by simp
  have c2: "SocialVertex_update 3 1 1 ?s1 (\<lambda>n. 0) = Inr (?s1\<lparr>active := False\<rparr>, \<lambda>n. 0)"
    using t [THEN conjunct2, THEN conjunct1] by simp
  have c3: "pregel_run (epidemic_upd 1 1 (1 / 10) 3) (Some epidemic_stats) ([?e0, ?e1], \<lambda>n. 0, [])
      = Some (Inr (map (\<lambda>v. v\<lparr>active := False, incoming_messages := [],
                               outgoing_messages := [], superstep := superstep v + 1\<rparr>) [?e0, ?e1],
                   \<lambda>n. 0, [] @ [(3, 1 / 2, 1 / 2)]))"
    using t [THEN conjunct2, THEN conjunct2, THEN conjunct1] es
    by (simp add: check_active_def)
  have c4: "pregel_run (SocialVertex_update 3 1 1) (Some social_stats) ([?s0, ?s1], \<lambda>n. 0, [])
      = Some (Inr (map (\<lambda>v. v\<lparr>active := False, incoming_messages := [],
                               outgoing_messages := [], superstep := superstep v + 1\<rparr>) [?s0, ?s1],
                   \<lambda>n. 0, [] @ [(3, 1 / 2, 1 / 2)]))"
    using t [THEN conjunct2, THEN conjunct2, THEN conjunct2] ss
    by (simp add: check_active_def)
  show ?thesis
    using c1 c2 c3 c4 by simp
qed

section \<open>Two vertices, incubation length 1, certain infection\<close>

text \<open>
  C6 (as stated): both vertices would be dead by round 3 and \<open>pAlive\<close> would be 0.0 by
  round 3.  In the run (first vertex infected through \<open>i = 1\<close>, \<open>td = 1\<close>, \<open>p = 1\<close>, 50
  steps), vertex 0 emits in round 1 and dies in round 2, vertex 1 is infected in round
  2, emits in round 3 and dies in round 4: after round 3 vertex 1 has value 2 and is
  active, and the tuple of round 3 has \<open>pAlive = 1/2\<close>.
\<close>

theorem two_vertex_epidemic_counterexample:
  "pregel_rounds (Suc (Suc (Suc (Suc 0)))) (epidemic_upd 1 1 1 50) (Some epidemic_stats)
     ([\<lparr>vertex_id = 0, vertex_value = 1, out_vertices = [1], incoming_messages = [],
        outgoing_messages = [], active = True, superstep = 0\<rparr>,
       \<lparr>vertex_id = 1, vertex_value = 0, out_vertices = [0], incoming_messages = [],
        outgoing_messages = [], active = True, superstep = 0\<rparr>], const_rng 0, [])
   = Inr ([\<lparr>vertex_id = 0, vertex_value = - 1, out_vertices = [1],
            incoming_messages = [(1, 1, ''sneeze'')], outgoing_messages = [], active = False,
            superstep = 4\<rparr>,
           \<lparr>vertex_id = 1, vertex_value = 2, out_vertices = [0], incoming_messages = [],
            outgoing_messages = [], active = True, superstep = 4\<rparr>],
          const_rng 0, [(0, 1, 1 / 2), (1, 1, 1 / 2), (2, 1 / 2, 1 / 2), (3, 1 / 2, 1 / 2)])"
  by (simp add: check_active_def pregel_superstep_def epidemic_upd_def EpidemicVertex_update_def
      redistribute_messages_def inbox_def epidemic_stats_def truediv_def sum_bool_def
      random_random_def const_rng_def)

lemma epidemic_pregel_rounds:
  assumes "pregel_rounds k (epidemic_upd i td p nsteps) (Some epidemic_stats) (vs, g, [])
             = Inr (vs', g', data)"
    and "\<not> check_active vs'"
  shows "epidemic_pregel i td p nsteps vs g = Some (Inr data)"
proof -
  have "pregel_run (epidemic_upd i td p nsteps) (Some epidemic_stats) (vs, g, [])
          = Some (Inr (vs', g', data))"
    using assms by (intro pregel_rounds_run [where k = k]) simp_all
  then show ?thesis by (simp add: epidemic_pregel_def)
qed

text \<open>
  C6 (amended): in the run with two vertices connected both ways, vertex 0 infected
  (value 1, and \<open>i = 1\<close>), \<open>td = 1\<close>, \<open>p = 1\<close>, a ceiling of at least 5 steps and any
  generator with draws in the unit interval: after round 2 vertex 0 is dead and vertex
  1 is infected (value 1); after round 4 both are dead and inactive; the run then
  returns, and its series shows \<open>pAlive\<close> 1 in rounds 0 and 1, 1/2 in rounds 2 and 3, and
  0 in round 4.
\<close>

theorem two_vertex_epidemic:
  assumes "unit_draws g" and "5 \<le> nsteps"
    and "vertices =
      [\<lparr>vertex_id = 0, vertex_value = 1, out_vertices = [1], incoming_messages = [],
        outgoing_messages = [], active = True, superstep = 0\<rparr>,
       \<lparr>vertex_id = 1, vertex_value = 0, out_vertices = [0], incoming_messages = [],
        outgoing_messages = [], active = True, superstep = 0\<rparr>]"
  shows "pregel_rounds (Suc (Suc (Suc 0))) (epidemic_upd 1 1 1 nsteps) (Some epidemic_stats)
           (vertices, g, [])
         = Inr ([\<lparr>vertex_id = 0, vertex_value = - 1, out_vertices = [1],
                  incoming_messages = [], outgoing_messages = [], active = False,
                  superstep = 3\<rparr>,
                 \<lparr>vertex_id = 1, vertex_value = 1, out_vertices = [0], incoming_messages = [],
                  outgoing_messages = [], active = True, superstep = 3\<rparr>],
                \<lambda>n. g (Suc n), [(0, 1, 1 / 2), (1, 1, 1 / 2), (2, 1 / 2, 1 / 2)]) \<and>
         pregel_rounds (Suc (Suc (Suc (Suc (Suc 0))))) (epidemic_upd 1 1 1 nsteps)
           (Some epidemic_stats) (vertices, g, [])
         = Inr ([\<lparr>vertex_id = 0, vertex_value = - 1, out_vertices = [1],
                  incoming_messages = [], outgoing_messages = [], active = False,
                  superstep = 5\<rparr>,
                 \<lparr>vertex_id = 1, vertex_value = - 1, out_vertices = [0],
                  incoming_messages = [], outgoing_messages = [], active = False,
                  superstep = 5\<rparr>],
                \<lambda>n. g (Suc n),
                [(0, 1, 1 / 2), (1, 1, 1 / 2), (2, 1 / 2, 1 / 2), (3, 1 / 2, 1 / 2), (4, 0, 0)]) \<and>
         epidemic_pregel 1 1 1 nsteps vertices g
         = Some (Inr [(0, 1, 1 / 2), (1, 1, 1 / 2), (2, 1 / 2, 1 / 2), (3, 1 / 2, 1 / 2),
                      (4, 0, 0)])"
proof -
  have d: "g 0 < 1" using assms(1) by (simp add: unit_draws_def)
  have r3: "pregel_rounds (Suc (Suc (Suc 0))) (epidemic_upd 1 1 1 nsteps) (Some epidemic_stats)
           (vertices, g, [])
         = Inr ([\<lparr>vertex_id = 0, vertex_value = - 1, out_vertices = [1],
                  incoming_messages = [], outgoing_messages = [], active = False,
                  superstep = 3\<rparr>,
                 \<lparr>vertex_id = 1, vertex_value = 1, out_vertices = [0], incoming_messages = [],
                  outgoing_messages = [], active = True, superstep = 3\<rparr>],
                \<lambda>n. g (Suc n), [(0, 1, 1 / 2), (1, 1, 1 / 2), (2, 1 / 2, 1 / 2)])"
    using d assms(2) unfolding assms(3)
    by (simp add: check_active_def pregel_superstep_def epidemic_upd_def
        EpidemicVertex_update_def redistribute_messages_def inbox_def epidemic_stats_def
        truediv_def sum_bool_def random_random_def)
  have r5: "pregel_rounds (Suc (Suc (Suc (Suc (Suc 0))))) (epidemic_upd 1 1 1 nsteps)
           (Some epidemic_stats) (vertices, g, [])
         = Inr ([\<lparr>vertex_id = 0, vertex_value = - 1, out_vertices = [1],
                  incoming_messages = [], outgoing_messages = [], active = False,
                  superstep = 5\<rparr>,
                 \<lparr>vertex_id = 1, vertex_value = - 1, out_vertices = [0],
                  incoming_messages = [], outgoing_messages = [], active = False,
                  superstep = 5\<rparr>],
                \<lambda>n. g (Suc n),
                [(0, 1, 1 / 2), (1, 1, 1 / 2), (2, 1 / 2, 1 / 2), (3, 1 / 2, 1 / 2), (4, 0, 0)])"
    using d assms(2) unfolding assms(3)
    by (simp add: check_active_def pregel_superstep_def epidemic_upd_def
        EpidemicVertex_update_def redistribute_messages_def inbox_def epidemic_stats_def
        truediv_def sum_bool_def random_random_def)
  have "epidemic_pregel 1 1 1 nsteps vertices g
         = Some (Inr [(0, 1, 1 / 2), (1, 1, 1 / 2), (2, 1 / 2, 1 / 2), (3, 1 / 2, 1 / 2),
                      (4, 0, 0)])"
    by (rule epidemic_pregel_rounds [OF r5]) (simp add: check_active_def)
  then show ?thesis using r3 r5 by simp
qed

theorem two_vertex_epidemic_witness:
  "unit_draws (\<lambda>n. 1 / 2) \<and>
   epidemic_pregel 1 1 1 50
     [\<lparr>vertex_id = 0, vertex_value = 1, out_vertices = [1], incoming_messages = [],
       outgoing_messages = [], active = True, superstep = 0\<rparr>,
      \<lparr>vertex_id = 1, vertex_value = 0, out_vertices = [0], incoming_messages = [],
       outgoing_messages = [], active = True, superstep = 0\<rparr>] (\<lambda>n. 1 / 2)
   = Some (Inr [(0, 1, 1 / 2), (1, 1, 1 / 2), (2, 1 / 2, 1 / 2), (3, 1 / 2, 1 / 2), (4, 0, 0)])"
proof -
  have u: "unit_draws (\<lambda>n. 1 / 2)" by (simp add: unit_draws_def)
  have n: "(5::int) \<le> 50" by simp
  note t = two_vertex_epidemic [OF u n refl]
  show ?thesis
    using u t [THEN conjunct2, THEN conjunct2] by simp
qed

section \<open>The epidemic run: termination and the alive fraction\<close>

lemma epidemic_update_superstep:
  "superstep (fst (EpidemicVertex_update i td p nsteps self g)) = superstep self"
  by (simp add: EpidemicVertex_update_def split: prod.splits)

lemma social_update_superstep:
  "SocialVertex_update nsteps a sp self g = Inr (v', g') \<Longrightarrow> superstep v' = superstep self"
  by (auto simp add: SocialVertex_update_def split: if_splits sum.splits prod.splits)

lemma epidemic_update_first:
  assumes "superstep self = 0"
  shows "vertex_value (fst (EpidemicVertex_update i td p nsteps self g)) = 0 \<or>
         vertex_value (fst (EpidemicVertex_update i td p nsteps self g)) = 1"
  using assms by (simp add: EpidemicVertex_update_def)

lemma infect_loop_value:
  "fst (infect_loop p ms val g) = val \<or> fst (infect_loop p ms val g) = 1"
  by (simp add: infect_loop_eq)

lemma epidemic_update_later:
  assumes "superstep self \<noteq> 0" and "- 1 \<le> vertex_value self"
  shows "(0 \<le> vertex_value (fst (EpidemicVertex_update i td p nsteps self g))
            \<longrightarrow> 0 \<le> vertex_value self) \<and>
         (vertex_value self = - 1
            \<longrightarrow> vertex_value (fst (EpidemicVertex_update i td p nsteps self g)) = - 1) \<and>
         - 1 \<le> vertex_value (fst (EpidemicVertex_update i td p nsteps self g))"
proof -
  have "vertex_value self = - 1 \<or> 0 < vertex_value self \<or> vertex_value self = 0"
    using assms(2) by auto
  then show ?thesis
    using assms(1) infect_loop_value [of p "incoming_messages self" 0 g]
    by (auto simp add: EpidemicVertex_update_def split: prod.splits)
qed

lemma epidemic_update_dead:
  assumes "superstep self \<noteq> 0" and "vertex_value self = - 1"
  shows "vertex_value (fst (EpidemicVertex_update i td p nsteps self g)) = - 1"
  using assms by (simp add: EpidemicVertex_update_def)

lemma sum_bool_mono:
  "list_all2 (\<lambda>v v'. c v' \<longrightarrow> c v) vs vs' \<Longrightarrow> sum_bool c vs' \<le> sum_bool c vs"
  by (induction rule: list_all2_induct) (auto simp add: sum_bool_def)

lemma epidemic_stats_palive:
  assumes "epidemic_stats vs = Inr (s, pa, pinf)"
  shows "pa = of_int (sum_bool (\<lambda>v. 0 \<le> vertex_value v) vs) / of_nat (length vs)"
  using assms by (cases vs) (simp add: epidemic_stats_def, simp add: epidemic_stats_Cons)

lemma pregel_superstep_rel2:
  assumes "pregel_superstep upd stats_fn (vs, g, data) = Inr (vs', g', data')"
    and "\<And>v g v' g'. v \<in> set vs \<Longrightarrow> active v \<Longrightarrow> upd v g = Inr (v', g') \<Longrightarrow> Q v v'"
    and "\<And>v. v \<in> set vs \<Longrightarrow> \<not> active v \<Longrightarrow> Q v v"
  shows "list_all2 (\<lambda>v v'. \<exists>v1 inc. Q v v1 \<and>
           v' = v1\<lparr>incoming_messages := inc, outgoing_messages := [],
                   superstep := superstep v1 + 1\<rparr>) vs vs'"
proof -
  obtain vs1 where u: "update_active upd vs g = Inr (vs1, g')"
    and e: "vs' = map (\<lambda>u. u\<lparr>incoming_messages := inbox vs1 (vertex_id u),
                              outgoing_messages := [],
                              superstep := superstep u + 1\<rparr>) vs1"
    using pregel_superstep_Inr [OF assms(1)] by blast
  have "list_all2 Q vs vs1"
    using update_active_rel [OF u, of Q] assms(2,3) by blast
  then show ?thesis
    unfolding e list_all2_map2
    by (rule list_all2_mono) blast
qed

lemma list_all2_set2: "list_all2 R xs ys \<Longrightarrow> y \<in> set ys \<Longrightarrow> \<exists>x\<in>set xs. R x y"
  by (induction rule: list_all2_induct) auto

lemma round_superstep:
  assumes r: "pregel_superstep upd stats_fn (vs, g, data) = Inr (vs', g', data')"
    and sup: "\<forall>v g v' g'. upd v g = Inr (v', g') \<longrightarrow> superstep v' = superstep v"
    and ceil: "\<forall>v g v' g'. c \<le> superstep v \<and> upd v g = Inr (v', g') \<longrightarrow> \<not> active v'"
    and uni: "\<forall>v\<in>set vs. superstep v = s"
  shows "(\<forall>v\<in>set vs'. superstep v = s + 1) \<and> (c \<le> s \<longrightarrow> \<not> check_active vs')"
proof -
  let ?Q = "\<lambda>v v1 :: 'a vertex. superstep v1 = superstep v \<and> (c \<le> superstep v \<longrightarrow> \<not> active v1)"
  have rel: "list_all2 (\<lambda>v v'. \<exists>v1 inc. ?Q v v1 \<and>
           v' = v1\<lparr>incoming_messages := inc, outgoing_messages := [],
                   superstep := superstep v1 + 1\<rparr>) vs vs'"
  proof (rule pregel_superstep_rel2 [OF r])
    fix v g0 v1 g1
    assume "upd v g0 = Inr (v1, g1)"
    then show "?Q v v1" using sup ceil by blast
  next
    fix v :: "'a vertex"
    assume "\<not> active v"
    then show "?Q v v" by simp
  qed
  have "superstep v' = s + 1 \<and> (c \<le> s \<longrightarrow> \<not> active v')" if mem: "v' \<in> set vs'" for v'
  proof -
    obtain v v1 inc where "v \<in> set vs" and "?Q v v1"
      and "v' = v1\<lparr>incoming_messages := inc, outgoing_messages := [],
                     superstep := superstep v1 + 1\<rparr>"
      using list_all2_set2 [OF rel mem] by blast
    then show ?thesis using uni by simp
  qed
  then show ?thesis by (simp add: check_active_def list_ex_iff)
qed

lemma run_at_ceiling:
  assumes sup: "\<forall>v g v' g'. upd v g = Inr (v', g') \<longrightarrow> superstep v' = superstep v"
    and ceil: "\<forall>v g v' g'. c \<le> superstep v \<and> upd v g = Inr (v', g') \<longrightarrow> \<not> active v'"
    and uni: "\<forall>v\<in>set vs. superstep v = s"
    and "c \<le> s"
  shows "\<exists>r. pregel_run upd stats_fn (vs, g, data) = Some r"
proof (cases "check_active vs")
  case False
  then show ?thesis by (subst pregel_run.simps) simp
next
  case True
  show ?thesis
  proof (cases "pregel_superstep upd stats_fn (vs, g, data)")
    case (Inl e)
    then show ?thesis using True by (subst pregel_run.simps) simp
  next
    case (Inr st')
    obtain vs' g' data' where st': "st' = (vs', g', data')" by (cases st') auto
    have "\<not> check_active vs'"
      using round_superstep [OF Inr [unfolded st'] sup ceil uni] \<open>c \<le> s\<close> by blast
    then have "pregel_run upd stats_fn st' = Some (Inr st')"
      unfolding st' by (subst pregel_run.simps) simp
    then show ?thesis using True Inr by (subst pregel_run.simps) simp
  qed
qed

lemma run_terminates_aux:
  assumes sup: "\<forall>v g v' g'. upd v g = Inr (v', g') \<longrightarrow> superstep v' = superstep v"
    and ceil: "\<forall>v g v' g'. c \<le> superstep v \<and> upd v g = Inr (v', g') \<longrightarrow> \<not> active v'"
  shows "nat (c - s) \<le> n \<Longrightarrow> \<forall>v\<in>set vs. superstep v = s \<Longrightarrow>
           \<exists>r. pregel_run upd stats_fn (vs, g, data) = Some r"
proof (induction n arbitrary: s vs g data)
  case 0
  then have "c \<le> s" by simp
  then show ?case using run_at_ceiling [OF sup ceil "0.prems"(2)] by blast
next
  case (Suc n)
  show ?case
  proof (cases "c \<le> s")
    case True
    then show ?thesis using run_at_ceiling [OF sup ceil Suc.prems(2)] by blast
  next
    case below: False
    show ?thesis
    proof (cases "check_active vs")
      case False
      then show ?thesis by (subst pregel_run.simps) simp
    next
      case True
      show ?thesis
      proof (cases "pregel_superstep upd stats_fn (vs, g, data)")
        case (Inl e)
        then show ?thesis using True by (subst pregel_run.simps) simp
      next
        case (Inr st')
        obtain vs' g' data' where st': "st' = (vs', g', data')" by (cases st') auto
        have u: "\<forall>v\<in>set vs'. superstep v = s + 1"
          using round_superstep [OF Inr [unfolded st'] sup ceil Suc.prems(2)] by blast
        have "nat (c - (s + 1)) \<le> n" using Suc.prems(1) below by simp
        then obtain r where "pregel_run upd stats_fn (vs', g', data') = Some r"
          using Suc.IH [OF _ u] by blast
        then show ?thesis using True Inr st' by (subst pregel_run.simps) simp
      qed
    qed
  qed
qed

lemma epidemic_run_terminates:
  assumes "\<forall>v\<in>set vs. superstep v = s"
  shows "\<exists>r. pregel_run (epidemic_upd i td p nsteps) stats_fn (vs, g, data) = Some r"
proof (rule run_terminates_aux [where c = "max nsteps 1" and s = s and n = "nat (max nsteps 1 - s)"])
  show "\<forall>v g v' g'. epidemic_upd i td p nsteps v g = Inr (v', g') \<longrightarrow> superstep v' = superstep v"
    by (metis epidemic_upd_def epidemic_update_superstep fst_conv old.sum.inject(2))
  show "\<forall>v g v' g'. max nsteps 1 \<le> superstep v \<and> epidemic_upd i td p nsteps v g = Inr (v', g')
          \<longrightarrow> \<not> active v'"
    by (auto simp add: epidemic_upd_def epidemic_update_ceiling)
qed (use assms in simp_all)

lemma social_run_terminates:
  assumes "\<forall>v\<in>set vs. superstep v = s"
  shows "\<exists>r. pregel_run (SocialVertex_update nsteps a sp) stats_fn (vs, g, data) = Some r"
proof (rule run_terminates_aux [where c = nsteps and s = s and n = "nat (nsteps - s)"])
  show "\<forall>v g v' g'. SocialVertex_update nsteps a sp v g = Inr (v', g')
          \<longrightarrow> superstep v' = superstep v"
    using social_update_superstep by blast
  show "\<forall>v g v' g'. nsteps \<le> superstep v \<and> SocialVertex_update nsteps a sp v g = Inr (v', g')
          \<longrightarrow> \<not> active v'"
    by (auto simp add: social_update_ceiling)
qed (use assms in simp_all)

lemma alive_fraction_map:
  "(\<And>v. vertex_value (f v) = vertex_value v) \<Longrightarrow> alive_fraction (map f vs) = alive_fraction vs"
  by (simp add: alive_fraction_def sum_bool_map)

lemma alive_fraction_mono:
  assumes "list_all2 (\<lambda>v v'. 0 \<le> vertex_value v' \<longrightarrow> 0 \<le> vertex_value v) vs vs'"
  shows "alive_fraction vs' \<le> alive_fraction vs"
proof -
  have "length vs' = length vs" using assms by (simp add: list_all2_lengthD)
  moreover have "sum_bool (\<lambda>v. 0 \<le> vertex_value v) vs' \<le> sum_bool (\<lambda>v. 0 \<le> vertex_value v) vs"
    using assms by (rule sum_bool_mono)
  ultimately show ?thesis
    by (simp add: alive_fraction_def divide_right_mono)
qed

lemma non_increasing_snoc:
  "non_increasing (xs @ [y]) \<longleftrightarrow> non_increasing xs \<and> (\<forall>x\<in>set xs. y \<le> x)"
  by (simp add: non_increasing_def sorted_wrt_append)

lemma palive_series_snoc: "palive_series (data @ [(s, pa, pinf)]) = palive_series data @ [pa]"
  by (simp add: palive_series_def)

lemma epidemic_round_inv:
  assumes inv: "epidemic_inv (vs, g, data)"
    and r: "pregel_superstep (epidemic_upd i td p nsteps) (Some epidemic_stats) (vs, g, data)
              = Inr (vs', g', data')"
  shows "epidemic_inv (vs', g', data') \<and>
         (\<exists>s. 1 \<le> s \<and> (\<forall>v\<in>set vs'. superstep v = s)) \<and>
         list_all2 (\<lambda>v v'. (\<exists>s. 1 \<le> s \<and> (\<forall>v\<in>set vs. superstep v = s)) \<longrightarrow>
                      (vertex_value v = - 1 \<longrightarrow> vertex_value v' = - 1)) vs vs'"
proof -
  let ?upd = "epidemic_upd i td p nsteps"
  let ?deliver = "\<lambda>vs1 u. u\<lparr>incoming_messages := inbox vs1 (vertex_id u), outgoing_messages := []\<rparr>"
  let ?advance = "\<lambda>vs1 u. u\<lparr>incoming_messages := inbox vs1 (vertex_id u), outgoing_messages := [],
                        superstep := superstep u + 1\<rparr>"
  obtain vs1 t where u: "update_active ?upd vs g = Inr (vs1, g')"
    and e: "vs' = map (?advance vs1) vs1"
    and st: "epidemic_stats (map (?deliver vs1) vs1) = Inr t" and d: "data' = data @ [t]"
    using pregel_superstep_Inr [OF r] by auto
  obtain s where s: "\<forall>v\<in>set vs. superstep v = s" and s0: "0 \<le> s"
    and first: "s = 0 \<longrightarrow> data = []"
    and later: "s \<noteq> 0 \<longrightarrow> (\<forall>v\<in>set vs. active v \<longrightarrow> - 1 \<le> vertex_value v) \<and>
                  non_increasing (palive_series data) \<and>
                  (\<forall>x\<in>set (palive_series data). alive_fraction vs \<le> x)"
  proof (cases "(\<forall>v\<in>set vs. superstep v = 0) \<and> data = []")
    case True
    then show ?thesis using that [of 0] by simp
  next
    case False
    then obtain s' where "1 \<le> s'" and "\<forall>v\<in>set vs. superstep v = s'"
      and "(\<forall>v\<in>set vs. active v \<longrightarrow> - 1 \<le> vertex_value v) \<and>
                  non_increasing (palive_series data) \<and>
                  (\<forall>x\<in>set (palive_series data). alive_fraction vs \<le> x)"
      using inv by (auto simp add: epidemic_inv_def)
    then show ?thesis using that [of s'] by simp
  qed
  let ?Q = "\<lambda>v v1 :: int vertex. superstep v1 = superstep v \<and>
              (active v1 \<longrightarrow> - 1 \<le> vertex_value v1) \<and>
              (s \<noteq> 0 \<longrightarrow> (0 \<le> vertex_value v1 \<longrightarrow> 0 \<le> vertex_value v) \<and>
                          (vertex_value v = - 1 \<longrightarrow> vertex_value v1 = - 1))"
  have rel: "list_all2 ?Q vs vs1"
  proof (rule update_active_rel [OF u])
    fix v g0 v1 g1
    assume v: "v \<in> set vs" and a: "active v" and "?upd v g0 = Inr (v1, g1)"
    then have v1: "v1 = fst (EpidemicVertex_update i td p nsteps v g0)"
      by (auto simp add: epidemic_upd_def)
    show "?Q v v1"
    proof (cases "s = 0")
      case True
      then have "superstep v = 0" using s v by simp
      then show ?thesis
        using epidemic_update_first [of v i td p nsteps g0]
          epidemic_update_superstep [of i td p nsteps v g0] True
        unfolding v1 by auto
    next
      case False
      then have "superstep v \<noteq> 0" and "- 1 \<le> vertex_value v"
        using s v a later by auto
      then show ?thesis
        using epidemic_update_later [of v i td p nsteps g0]
          epidemic_update_superstep [of i td p nsteps v g0]
        unfolding v1 by simp
    qed
  next
    fix v :: "int vertex"
    assume "\<not> active v"
    then show "?Q v v" by simp
  qed
  have len: "length vs1 = length vs"
    using rel by (simp add: list_all2_lengthD)
  have mem1: "superstep v1 = s \<and> (active v1 \<longrightarrow> - 1 \<le> vertex_value v1)"
    if m: "v1 \<in> set vs1" for v1
    using list_all2_set2 [OF rel m] s by auto
  have frac: "s \<noteq> 0 \<longrightarrow> alive_fraction vs1 \<le> alive_fraction vs"
  proof
    assume "s \<noteq> 0"
    then have "list_all2 (\<lambda>v v'. 0 \<le> vertex_value v' \<longrightarrow> 0 \<le> vertex_value v) vs vs1"
      using rel by (auto elim: list_all2_mono)
    then show "alive_fraction vs1 \<le> alive_fraction vs"
      by (rule alive_fraction_mono)
  qed
  have dead: "list_all2 (\<lambda>v v'. (\<exists>s. 1 \<le> s \<and> (\<forall>v\<in>set vs. superstep v = s)) \<longrightarrow>
                      (vertex_value v = - 1 \<longrightarrow> vertex_value v' = - 1)) vs vs'"
  proof (cases "vs = []")
    case True
    then show ?thesis using len e by simp
  next
    case False
    then obtain w where w: "w \<in> set vs" by (cases vs) auto
    have "list_all2 (\<lambda>v v1. (\<exists>s. 1 \<le> s \<and> (\<forall>v\<in>set vs. superstep v = s)) \<longrightarrow>
                      (vertex_value v = - 1 \<longrightarrow> vertex_value v1 = - 1)) vs vs1"
      using rel
    proof (rule list_all2_mono)
      fix v v1 :: "int vertex"
      assume q: "?Q v v1"
      show "(\<exists>s. 1 \<le> s \<and> (\<forall>v\<in>set vs. superstep v = s)) \<longrightarrow>
                      (vertex_value v = - 1 \<longrightarrow> vertex_value v1 = - 1)"
      proof
        assume "\<exists>s. 1 \<le> s \<and> (\<forall>v\<in>set vs. superstep v = s)"
        then have "s \<noteq> 0" using s w by auto
        then show "vertex_value v = - 1 \<longrightarrow> vertex_value v1 = - 1" using q by simp
      qed
    qed
    then show ?thesis
      unfolding e by (simp add: list_all2_map2)
  qed
  obtain ts pa pinf where t: "t = (ts, pa, pinf)" by (cases t) auto
  have pa: "pa = alive_fraction vs1"
    using epidemic_stats_palive [OF st [unfolded t]]
    by (simp add: alive_fraction_def sum_bool_map)
  have fr': "alive_fraction vs' = alive_fraction vs1"
    unfolding e by (rule alive_fraction_map) simp
  have below: "\<forall>x\<in>set (palive_series data). pa \<le> x"
  proof (cases "s = 0")
    case True
    then show ?thesis using first by (simp add: palive_series_def)
  next
    case False
    then show ?thesis using later frac pa by fastforce
  qed
  have "non_increasing (palive_series data)"
    using first later by (cases "s = 0") (simp_all add: palive_series_def non_increasing_def)
  then have ni: "non_increasing (palive_series data')"
    using below unfolding d t by (simp add: palive_series_snoc non_increasing_snoc)
  have above: "\<forall>x\<in>set (palive_series data'). alive_fraction vs' \<le> x"
    using below pa fr' unfolding d t by (simp add: palive_series_snoc)
  have sup: "1 \<le> s + 1 \<and> (\<forall>v\<in>set vs'. superstep v = s + 1)"
    using s0 mem1 unfolding e by simp
  have act: "\<forall>v\<in>set vs'. active v \<longrightarrow> - 1 \<le> vertex_value v"
    using mem1 unfolding e by simp
  have ex: "\<exists>s'. 1 \<le> s' \<and> (\<forall>v\<in>set vs'. superstep v = s')"
    using sup by (intro exI [of _ "s + 1"])
  have "epidemic_inv (vs', g', data')"
    unfolding epidemic_inv_def using ex act ni above by simp
  then show ?thesis using ex dead by simp
qed


lemma epidemic_rounds_inv:
  assumes "pregel_rounds k (epidemic_upd i td p nsteps) (Some epidemic_stats) st = Inr st'"
    and "epidemic_inv st"
  shows "epidemic_inv st'"
proof (rule pregel_rounds_invariant [OF assms(1), where P = epidemic_inv])
  show "epidemic_inv st" by fact
next
  fix x y :: "int vertex list \<times> rng \<times> (int \<times> rat \<times> rat) list"
  assume "epidemic_inv x"
    and "pregel_superstep (epidemic_upd i td p nsteps) (Some epidemic_stats) x = Inr y"
  then show "epidemic_inv y"
    using epidemic_round_inv [of "fst x" "fst (snd x)" "snd (snd x)" i td p nsteps
        "fst y" "fst (snd y)" "snd (snd y)"]
    by simp
qed

lemma epidemic_rounds_dead:
  assumes r: "pregel_rounds k (epidemic_upd i td p nsteps) (Some epidemic_stats) (vs, g, data)
             = Inr (vs', g', data')"
    and inv: "epidemic_inv (vs, g, data)"
    and uni: "\<exists>s. 1 \<le> s \<and> (\<forall>v\<in>set vs. superstep v = s)"
  shows "list_all2 (\<lambda>v v'. vertex_value v = - 1 \<longrightarrow> vertex_value v' = - 1) vs vs'"
proof -
  let ?D = "\<lambda>v v' :: int vertex. vertex_value v = - 1 \<longrightarrow> vertex_value v' = - 1"
  let ?P = "\<lambda>st :: int vertex list \<times> rng \<times> (int \<times> rat \<times> rat) list.
              epidemic_inv st \<and> (\<exists>s. 1 \<le> s \<and> (\<forall>v\<in>set (fst st). superstep v = s)) \<and>
              list_all2 ?D vs (fst st)"
  have "?P (vs', g', data')"
  proof (rule pregel_rounds_invariant [OF r, where P = ?P])
    show "?P (vs, g, data)"
      using inv uni by (simp add: list_all2_refl)
  next
    fix x y :: "int vertex list \<times> rng \<times> (int \<times> rat \<times> rat) list"
    assume p: "?P x"
      and s: "pregel_superstep (epidemic_upd i td p nsteps) (Some epidemic_stats) x = Inr y"
    obtain ws h d where x: "x = (ws, h, d)" by (cases x) auto
    obtain ws' h' d' where y: "y = (ws', h', d')" by (cases y) auto
    have step: "epidemic_inv (ws', h', d') \<and>
         (\<exists>s. 1 \<le> s \<and> (\<forall>v\<in>set ws'. superstep v = s)) \<and>
         list_all2 (\<lambda>v v'. (\<exists>s. 1 \<le> s \<and> (\<forall>v\<in>set ws. superstep v = s)) \<longrightarrow>
                      (vertex_value v = - 1 \<longrightarrow> vertex_value v' = - 1)) ws ws'"
      using epidemic_round_inv [of ws h d i td p nsteps ws' h' d'] p s
      unfolding x y by simp
    have "\<exists>s. 1 \<le> s \<and> (\<forall>v\<in>set ws. superstep v = s)"
      using p unfolding x by simp
    then have "list_all2 ?D ws ws'"
      using step by (auto elim: list_all2_mono)
    moreover have "list_all2 ?D vs ws"
      using p unfolding x by simp
    ultimately have "list_all2 ?D vs ws'"
      by (auto elim: list_all2_trans [rotated])
    then show "?P y"
      using step unfolding y by simp
  qed
  then show ?thesis by simp
qed

lemma epidemic_inv_initial:
  "list_all (\<lambda>v. superstep v = 0) vertices \<Longrightarrow> epidemic_inv (vertices, g, [])"
  by (simp add: epidemic_inv_def list_all_iff)

lemma epidemic_inv_series: "epidemic_inv (vs, g, data) \<Longrightarrow> non_increasing (palive_series data)"
  by (auto simp add: epidemic_inv_def palive_series_def non_increasing_def)

lemma rounds_length:
  assumes "pregel_rounds k upd stats_fn (vs, g, data) = Inr (vs', g', data')"
  shows "length vs' = length vs"
proof -
  have "list_all2 (\<lambda>v v'. True) vs vs'"
    by (rule pregel_rounds_rel [OF assms]) simp_all
  then show ?thesis by (simp add: list_all2_lengthD)
qed

lemma epidemic_dead_stays_dead:
  assumes init: "list_all (\<lambda>v. superstep v = 0) vertices"
    and rt: "pregel_rounds t (epidemic_upd i td p nsteps) (Some epidemic_stats) (vertices, g, [])
               = Inr (vs, h, d)"
    and rt': "pregel_rounds t' (epidemic_upd i td p nsteps) (Some epidemic_stats) (vertices, g, [])
               = Inr (vs', h', d')"
    and t: "1 \<le> t" "t \<le> t'"
  shows "list_all2 (\<lambda>v v'. vertex_value v = - 1 \<longrightarrow> vertex_value v' = - 1) vs vs'"
proof (cases "check_active vertices")
  case False
  then have "vs = vertices" and "vs' = vertices"
    using rt rt' by (simp_all add: pregel_rounds_inactive)
  then show ?thesis by (simp add: list_all2_refl)
next
  case True
  let ?upd = "epidemic_upd i td p nsteps"
  obtain t0 where t0: "t = Suc t0" using t(1) by (cases t) auto
  obtain k where k: "t' = t + k" using t(2) by (auto simp add: le_iff_add)
  obtain st1 where s1: "pregel_superstep ?upd (Some epidemic_stats) (vertices, g, []) = Inr st1"
    and r0: "pregel_rounds t0 ?upd (Some epidemic_stats) st1 = Inr (vs, h, d)"
    using rt True unfolding t0 by (auto split: sum.splits)
  obtain ws1 g1 d1 where st1: "st1 = (ws1, g1, d1)" by (cases st1) auto
  have i1: "epidemic_inv st1 \<and> (\<exists>s. 1 \<le> s \<and> (\<forall>v\<in>set ws1. superstep v = s))"
    using epidemic_round_inv [OF epidemic_inv_initial [OF init] s1 [unfolded st1]]
    unfolding st1 by simp
  let ?P = "\<lambda>st :: int vertex list \<times> rng \<times> (int \<times> rat \<times> rat) list.
              epidemic_inv st \<and> (\<exists>s. 1 \<le> s \<and> (\<forall>v\<in>set (fst st). superstep v = s))"
  have "?P (vs, h, d)"
  proof (rule pregel_rounds_invariant [OF r0, where P = ?P])
    show "?P st1" using i1 unfolding st1 by simp
  next
    fix x y :: "int vertex list \<times> rng \<times> (int \<times> rat \<times> rat) list"
    assume "?P x"
      and "pregel_superstep ?upd (Some epidemic_stats) x = Inr y"
    then show "?P y"
      using epidemic_round_inv [of "fst x" "fst (snd x)" "snd (snd x)" i td p nsteps
          "fst y" "fst (snd y)" "snd (snd y)"]
      by simp
  qed
  moreover have "pregel_rounds k ?upd (Some epidemic_stats) (vs, h, d) = Inr (vs', h', d')"
    using rt rt' unfolding k by (simp add: pregel_rounds_add)
  ultimately show ?thesis
    using epidemic_rounds_dead [of k i td p nsteps vs h d vs' h' d'] by simp
qed

text \<open>
  C5: for every epidemic run from vertices at superstep 0 (as they are constructed),
  whatever their values, activity flags, edges and buffers and whatever the generator:
  the run returns; the series it returns is non-increasing in \<open>palive\<close>, and so is the
  series accumulated after any number of rounds; an update at a superstep other than 0
  (every update after the one that initialises the values, which comes before the
  first entry of the series) leaves a value of \<open>-1\<close> at \<open>-1\<close>; and a vertex that is dead
  at the end of a round is dead at the end of every later round.
\<close>

theorem alive_fraction_non_increasing:
  assumes "list_all (\<lambda>v. superstep v = 0) vertices"
  shows "(\<exists>r. epidemic_pregel i td p nsteps vertices g = Some r) \<and>
         (\<forall>data. epidemic_pregel i td p nsteps vertices g = Some (Inr data) \<longrightarrow>
            non_increasing (palive_series data)) \<and>
         (\<forall>k vs g' data.
            pregel_rounds k (epidemic_upd i td p nsteps) (Some epidemic_stats) (vertices, g, [])
              = Inr (vs, g', data) \<longrightarrow> non_increasing (palive_series data)) \<and>
         (\<forall>self g0. superstep self \<noteq> 0 \<and> vertex_value self = - 1 \<longrightarrow>
            vertex_value (fst (EpidemicVertex_update i td p nsteps self g0)) = - 1) \<and>
         (\<forall>t t' vs h d vs' h' d' n.
            1 \<le> t \<and> t \<le> t' \<and>
            pregel_rounds t (epidemic_upd i td p nsteps) (Some epidemic_stats) (vertices, g, [])
              = Inr (vs, h, d) \<and>
            pregel_rounds t' (epidemic_upd i td p nsteps) (Some epidemic_stats) (vertices, g, [])
              = Inr (vs', h', d') \<and>
            n < length vertices \<and> vertex_value (vs ! n) = - 1 \<longrightarrow>
            vertex_value (vs' ! n) = - 1)"
proof -
  let ?upd = "epidemic_upd i td p nsteps"
  have uni: "\<forall>v\<in>set vertices. superstep v = 0"
    using assms by (simp add: list_all_iff)
  have rounds: "non_increasing (palive_series data)"
    if "pregel_rounds k ?upd (Some epidemic_stats) (vertices, g, []) = Inr (vs, g', data)"
    for k vs g' data
    using epidemic_rounds_inv [OF that epidemic_inv_initial [OF assms]]
    by (rule epidemic_inv_series)
  obtain r where r: "pregel_run ?upd (Some epidemic_stats) (vertices, g, []) = Some r"
    using epidemic_run_terminates [OF uni] by blast
  have c1: "\<exists>r. epidemic_pregel i td p nsteps vertices g = Some r"
    using r by (auto simp add: epidemic_pregel_def split: sum.splits)
  have c2: "\<forall>data. epidemic_pregel i td p nsteps vertices g = Some (Inr data) \<longrightarrow>
            non_increasing (palive_series data)"
  proof (intro allI impI)
    fix data
    assume "epidemic_pregel i td p nsteps vertices g = Some (Inr data)"
    then obtain vs g' where "r = Inr (vs, g', data)"
      using r by (auto simp add: epidemic_pregel_def split: sum.splits)
    then obtain k where "pregel_rounds k ?upd (Some epidemic_stats) (vertices, g, [])
                          = Inr (vs, g', data)"
      using pregel_run_rounds [OF r] by blast
    then show "non_increasing (palive_series data)" by (rule rounds)
  qed
  have c3: "\<forall>k vs g' data.
            pregel_rounds k ?upd (Some epidemic_stats) (vertices, g, []) = Inr (vs, g', data)
              \<longrightarrow> non_increasing (palive_series data)"
    using rounds by blast
  have c4: "\<forall>self g0. superstep self \<noteq> 0 \<and> vertex_value self = - 1 \<longrightarrow>
            vertex_value (fst (EpidemicVertex_update i td p nsteps self g0)) = - 1"
    by (simp add: epidemic_update_dead)
  have c5: "\<forall>t t' vs h d vs' h' d' n.
            1 \<le> t \<and> t \<le> t' \<and>
            pregel_rounds t ?upd (Some epidemic_stats) (vertices, g, []) = Inr (vs, h, d) \<and>
            pregel_rounds t' ?upd (Some epidemic_stats) (vertices, g, []) = Inr (vs', h', d') \<and>
            n < length vertices \<and> vertex_value (vs ! n) = - 1 \<longrightarrow>
            vertex_value (vs' ! n) = - 1"
  proof (intro allI impI)
    fix t t' :: nat and vs vs' :: "int vertex list" and h h' :: rng
      and d d' :: "(int \<times> rat \<times> rat) list" and n :: nat
    assume a: "1 \<le> t \<and> t \<le> t' \<and>
            pregel_rounds t ?upd (Some epidemic_stats) (vertices, g, []) = Inr (vs, h, d) \<and>
            pregel_rounds t' ?upd (Some epidemic_stats) (vertices, g, []) = Inr (vs', h', d') \<and>
            n < length vertices \<and> vertex_value (vs ! n) = - 1"
    then have rel: "list_all2 (\<lambda>v v'. vertex_value v = - 1 \<longrightarrow> vertex_value v' = - 1) vs vs'"
      using epidemic_dead_stays_dead [OF assms, of t i td p nsteps g vs h d t' vs' h' d']
      by simp
    have "length vs = length vertices"
      using a rounds_length by blast
    then show "vertex_value (vs' ! n) = - 1"
      using list_all2_nthD [OF rel, of n] a by simp
  qed
  show ?thesis
    using c1 c2 c3 c4 c5 by (intro conjI)
qed

theorem alive_fraction_non_increasing_witness:
  "list_all (\<lambda>v. superstep v = 0)
     [\<lparr>vertex_id = 0, vertex_value = 1 :: int, out_vertices = [1], incoming_messages = [],
       outgoing_messages = [], active = True, superstep = 0\<rparr>,
      \<lparr>vertex_id = 1, vertex_value = 0, out_vertices = [0], incoming_messages = [],
       outgoing_messages = [], active = True, superstep = 0\<rparr>] \<and>
   epidemic_pregel 1 1 1 50
     [\<lparr>vertex_id = 0, vertex_value = 1, out_vertices = [1], incoming_messages = [],
       outgoing_messages = [], active = True, superstep = 0\<rparr>,
      \<lparr>vertex_id = 1, vertex_value = 0, out_vertices = [0], incoming_messages = [],
       outgoing_messages = [], active = True, superstep = 0\<rparr>] (\<lambda>n. 1 / 2)
   = Some (Inr [(0, 1, 1 / 2), (1, 1, 1 / 2), (2, 1 / 2, 1 / 2), (3, 1 / 2, 1 / 2), (4, 0, 0)]) \<and>
   non_increasing
     (palive_series [(0, 1, 1 / 2), (1, 1, 1 / 2), (2, 1 / 2, 1 / 2), (3, 1 / 2, 1 / 2), (4, 0, 0)])"
proof -
  let ?vs = "[\<lparr>vertex_id = 0, vertex_value = 1, out_vertices = [1], incoming_messages = [],
       outgoing_messages = [], active = True, superstep = 0\<rparr>,
      \<lparr>vertex_id = 1, vertex_value = 0, out_vertices = [0], incoming_messages = [],
       outgoing_messages = [], active = True, superstep = 0\<rparr>] :: int vertex list"
  let ?series = "[(0, 1, 1 / 2), (1, 1, 1 / 2), (2, 1 / 2, 1 / 2), (3, 1 / 2, 1 / 2), (4, 0, 0)]
                   :: (int \<times> rat \<times> rat) list"
  have h: "list_all (\<lambda>v. superstep v = 0) ?vs" by simp
  have r5: "pregel_rounds (Suc (Suc (Suc (Suc (Suc 0))))) (epidemic_upd 1 1 1 50)
           (Some epidemic_stats) (?vs, \<lambda>n. 1 / 2, [])
         = Inr ([\<lparr>vertex_id = 0, vertex_value = - 1, out_vertices = [1],
                  incoming_messages = [], outgoing_messages = [], active = False,
                  superstep = 5\<rparr>,
                 \<lparr>vertex_id = 1, vertex_value = - 1, out_vertices = [0],
                  incoming_messages = [], outgoing_messages = [], active = False,
                  superstep = 5\<rparr>], \<lambda>n. 1 / 2, ?series)"
    by (simp add: check_active_def pregel_superstep_def epidemic_upd_def
        EpidemicVertex_update_def redistribute_messages_def inbox_def epidemic_stats_def
        truediv_def sum_bool_def random_random_def)
  have e: "epidemic_pregel 1 1 1 50 ?vs (\<lambda>n. 1 / 2) = Some (Inr ?series)"
    by (rule epidemic_pregel_rounds [OF r5]) (simp add: check_active_def)
  note t = alive_fraction_non_increasing [OF h, of 1 1 1 50 "\<lambda>n. 1 / 2"]
  have n: "non_increasing (palive_series ?series)"
    using t [THEN conjunct2, THEN conjunct1] e by blast
  show ?thesis
    by (rule conjI [OF h conjI [OF e n]])
qed

section \<open>The statistics functions read values and the superstep only\<close>

lemma sum_bool_values:
  "map vertex_value vs = map vertex_value vs' \<Longrightarrow>
     sum_bool (\<lambda>v. c (vertex_value v)) vs = sum_bool (\<lambda>v. c (vertex_value v)) vs'"
proof (induction vs arbitrary: vs')
  case Nil
  then show ?case by (simp add: sum_bool_def)
next
  case (Cons v vs)
  then obtain w ws where "vs' = w # ws" by (cases vs') auto
  then show ?case using Cons by (simp add: sum_bool_def)
qed

lemma h_sum_reads:
  "h_sum cond vs h = (Inr (sum_bool (\<lambda>v. cond (vertex_value v)) (map h vs)), h)"
  by (induction vs) (simp_all add: h_return_def h_bind_def h_read_def sum_bool_def)

lemma h_write_changes:
  "assign (h v) \<noteq> h v \<Longrightarrow> snd (h_write assign v h) \<noteq> h"
  by (auto simp add: h_write_def dest: fun_cong [where x = v])

lemma epidemic_stats_h_eq:
  "epidemic_stats_h vertices h = (epidemic_stats (map h vertices), h)"
proof (cases vertices)
  case Nil
  then show ?thesis
    by (simp add: epidemic_stats_h_def epidemic_stats_def h_first_def h_bind_def h_raise_def)
next
  case (Cons v vs)
  then show ?thesis
    by (simp add: epidemic_stats_h_def epidemic_stats_def h_first_def h_bind_def h_raise_def
        h_return_def h_read_def h_truediv_def h_sum_reads truediv_def sum_bool_def comp_def)
qed

lemma social_stats_h_eq:
  "social_stats_h vertices h = (social_stats (map h vertices), h)"
proof (cases vertices)
  case Nil
  then show ?thesis
    by (simp add: social_stats_h_def social_stats_def h_first_def h_bind_def h_raise_def)
next
  case (Cons v vs)
  then show ?thesis
    by (simp add: social_stats_h_def social_stats_def h_first_def h_bind_def h_raise_def
        h_return_def h_read_def h_truediv_def h_sum_reads truediv_def sum_bool_def comp_def)
qed

lemma epidemic_stats_values:
  assumes "map vertex_value vs = map vertex_value vs'"
    and "vs \<noteq> [] \<longrightarrow> superstep (hd vs) = superstep (hd vs')"
  shows "epidemic_stats vs = epidemic_stats vs'"
proof (cases vs)
  case Nil
  then show ?thesis using assms(1) by simp
next
  case (Cons v ws)
  then obtain v' ws' where c': "vs' = v' # ws'" using assms(1) by (cases vs') auto
  have len: "length ws = length ws'"
    using assms(1) unfolding Cons c' by (auto dest: map_eq_imp_length_eq)
  have a: "sum_bool (\<lambda>v. 0 \<le> vertex_value v) vs = sum_bool (\<lambda>v. 0 \<le> vertex_value v) vs'"
    using assms(1) by (rule sum_bool_values [where c = "\<lambda>x. 0 \<le> x"])
  have b: "sum_bool (\<lambda>v. 0 < vertex_value v) vs = sum_bool (\<lambda>v. 0 < vertex_value v) vs'"
    using assms(1) by (rule sum_bool_values [where c = "\<lambda>x. 0 < x"])
  show ?thesis
    using a b len assms(2) unfolding Cons c'
    by (simp add: epidemic_stats_Cons del: of_nat_Suc)
qed

lemma social_stats_values:
  assumes "map vertex_value svs = map vertex_value svs'"
    and "svs \<noteq> [] \<longrightarrow> superstep (hd svs) = superstep (hd svs')"
  shows "social_stats svs = social_stats svs'"
proof (cases svs)
  case Nil
  then show ?thesis using assms(1) by simp
next
  case (Cons v ws)
  then obtain v' ws' where c': "svs' = v' # ws'" using assms(1) by (cases svs') auto
  have len: "length ws = length ws'"
    using assms(1) unfolding Cons c' by (auto dest: map_eq_imp_length_eq)
  have a: "sum_bool (\<lambda>v. vertex_value v = ''F'') svs = sum_bool (\<lambda>v. vertex_value v = ''F'') svs'"
    using assms(1) by (rule sum_bool_values [where c = "\<lambda>x. x = ''F''"])
  have b: "sum_bool (\<lambda>v. vertex_value v = ''M'') svs = sum_bool (\<lambda>v. vertex_value v = ''M'') svs'"
    using assms(1) by (rule sum_bool_values [where c = "\<lambda>x. x = ''M''"])
  show ?thesis
    using a b len assms(2) unfolding Cons c'
    by (simp add: social_stats_Cons del: of_nat_Suc)
qed

text \<open>
  C8: the statistics functions are pure.  Run on any heap of vertex objects and any
  list of references, \<open>epidemic_stats\<close> and \<open>social_stats\<close> return the heap they were
  given, so every field of every vertex (value, active, superstep, out_vertices, both
  message buffers, id) is as it was, also when the function raises; the result they
  return is the one computed from the vertices the references point to; and that
  result is determined by the values of the vertices and the superstep of the first
  one: two vertex lists that agree on these get the same result, whatever their ids,
  edges, buffers, activity flags and other supersteps are.
\<close>

theorem stats_are_pure:
  "epidemic_stats_h vertices h = (epidemic_stats (map h vertices), h) \<and>
   social_stats_h svertices sh = (social_stats (map sh svertices), sh) \<and>
   (map vertex_value vs = map vertex_value vs' \<and>
    (vs \<noteq> [] \<longrightarrow> superstep (hd vs) = superstep (hd vs')) \<longrightarrow>
      epidemic_stats vs = epidemic_stats vs') \<and>
   (map vertex_value svs = map vertex_value svs' \<and>
    (svs \<noteq> [] \<longrightarrow> superstep (hd svs) = superstep (hd svs')) \<longrightarrow>
      social_stats svs = social_stats svs')"
proof (intro conjI impI)
  show "epidemic_stats_h vertices h = (epidemic_stats (map h vertices), h)"
    by (rule epidemic_stats_h_eq)
next
  show "social_stats_h svertices sh = (social_stats (map sh svertices), sh)"
    by (rule social_stats_h_eq)
next
  assume "map vertex_value vs = map vertex_value vs' \<and>
    (vs \<noteq> [] \<longrightarrow> superstep (hd vs) = superstep (hd vs'))"
  then show "epidemic_stats vs = epidemic_stats vs'"
    using epidemic_stats_values [of vs vs'] by blast
next
  assume "map vertex_value svs = map vertex_value svs' \<and>
    (svs \<noteq> [] \<longrightarrow> superstep (hd svs) = superstep (hd svs'))"
  then show "social_stats svs = social_stats svs'"
    using social_stats_values [of svs svs'] by blast
qed

theorem stats_are_pure_witness:
  "epidemic_stats_h [0, 1]
     (\<lambda>a. if a = 0
          then \<lparr>vertex_id = 0, vertex_value = 2, out_vertices = [1], incoming_messages = [],
                outgoing_messages = [(1, 1, ''sneeze'')], active = True, superstep = 3\<rparr>
          else \<lparr>vertex_id = 1, vertex_value = - 1, out_vertices = [0], incoming_messages = [],
                outgoing_messages = [], active = False, superstep = 3\<rparr>)
   = (Inr (3, 1 / 2, 1 / 2),
      \<lambda>a. if a = 0
          then \<lparr>vertex_id = 0, vertex_value = 2, out_vertices = [1], incoming_messages = [],
                outgoing_messages = [(1, 1, ''sneeze'')], active = True, superstep = 3\<rparr>
          else \<lparr>vertex_id = 1, vertex_value = - 1, out_vertices = [0], incoming_messages = [],
                outgoing_messages = [], active = False, superstep = 3\<rparr>) \<and>
   social_stats_h []
     (\<lambda>a. \<lparr>vertex_id = 0, vertex_value = ''M'', out_vertices = [], incoming_messages = [],
            outgoing_messages = [], active = True, superstep = 7\<rparr>)
   = (Inl IndexError,
      \<lambda>a. \<lparr>vertex_id = 0, vertex_value = ''M'', out_vertices = [], incoming_messages = [],
            outgoing_messages = [], active = True, superstep = 7\<rparr>) \<and>
   epidemic_stats
     [\<lparr>vertex_id = 0, vertex_value = 2, out_vertices = [1], incoming_messages = [],
       outgoing_messages = [(1, 1, ''sneeze'')], active = True, superstep = 3\<rparr>,
      \<lparr>vertex_id = 1, vertex_value = - 1, out_vertices = [0], incoming_messages = [],
       outgoing_messages = [], active = False, superstep = 3\<rparr>]
   = epidemic_stats
     [\<lparr>vertex_id = 7, vertex_value = 2, out_vertices = [], incoming_messages = [(0, 1, ''x'')],
       outgoing_messages = [], active = False, superstep = 3\<rparr>,
      \<lparr>vertex_id = 8, vertex_value = - 1, out_vertices = [7, 7], incoming_messages = [],
       outgoing_messages = [], active = True, superstep = 9\<rparr>] \<and>
   social_stats
     [\<lparr>vertex_id = 0, vertex_value = ''M'', out_vertices = [1], incoming_messages = [],
       outgoing_messages = [], active = True, superstep = 7\<rparr>,
      \<lparr>vertex_id = 1, vertex_value = ''F'', out_vertices = [0], incoming_messages = [],
       outgoing_messages = [], active = True, superstep = 7\<rparr>]
   = social_stats
     [\<lparr>vertex_id = 5, vertex_value = ''M'', out_vertices = [], incoming_messages = [(1, 1, ''F'')],
       outgoing_messages = [(1, 1, ''M'')], active = False, superstep = 7\<rparr>,
      \<lparr>vertex_id = 6, vertex_value = ''F'', out_vertices = [5], incoming_messages = [],
       outgoing_messages = [], active = True, superstep = 0\<rparr>]"
proof -
  let ?e0 = "\<lparr>vertex_id = 0, vertex_value = 2, out_vertices = [1], incoming_messages = [],
                outgoing_messages = [(1, 1, ''sneeze'')], active = True, superstep = 3\<rparr>
              :: int vertex"
  let ?e1 = "\<lparr>vertex_id = 1, vertex_value = - 1, out_vertices = [0], incoming_messages = [],
                outgoing_messages = [], active = False, superstep = 3\<rparr> :: int vertex"
  let ?f0 = "\<lparr>vertex_id = 7, vertex_value = 2, out_vertices = [], incoming_messages = [(0, 1, ''x'')],
       outgoing_messages = [], active = False, superstep = 3\<rparr> :: int vertex"
  let ?f1 = "\<lparr>vertex_id = 8, vertex_value = - 1, out_vertices = [7, 7], incoming_messages = [],
       outgoing_messages = [], active = True, superstep = 9\<rparr> :: int vertex"
  let ?s0 = "\<lparr>vertex_id = 0, vertex_value = ''M'', out_vertices = [1], incoming_messages = [],
       outgoing_messages = [], active = True, superstep = 7\<rparr> :: string vertex"
  let ?s1 = "\<lparr>vertex_id = 1, vertex_value = ''F'', out_vertices = [0], incoming_messages = [],
       outgoing_messages = [], active = True, superstep = 7\<rparr> :: string vertex"
  let ?t0 = "\<lparr>vertex_id = 5, vertex_value = ''M'', out_vertices = [], incoming_messages = [(1, 1, ''F'')],
       outgoing_messages = [(1, 1, ''M'')], active = False, superstep = 7\<rparr> :: string vertex"
  let ?t1 = "\<lparr>vertex_id = 6, vertex_value = ''F'', out_vertices = [5], incoming_messages = [],
       outgoing_messages = [], active = True, superstep = 0\<rparr> :: string vertex"
  let ?H = "\<lambda>a :: nat. if a = 0 then ?e0 else ?e1"
  let ?S = "\<lambda>a :: nat. \<lparr>vertex_id = 0, vertex_value = ''M'', out_vertices = [],
       incoming_messages = [], outgoing_messages = [], active = True, superstep = 7\<rparr>
       :: string vertex"
  note t = stats_are_pure
      [where vertices = "[0, 1]" and h = ?H and svertices = "[]" and sh = ?S
         and vs = "[?e0, ?e1]" and vs' = "[?f0, ?f1]"
         and svs = "[?s0, ?s1]" and svs' = "[?t0, ?t1]"]
  have c1: "epidemic_stats_h [0, 1] ?H = (Inr (3, 1 / 2, 1 / 2), ?H)"
    using t [THEN conjunct1] by (simp add: epidemic_stats_Cons sum_bool_def)
  have c2: "social_stats_h [] ?S = (Inl IndexError, ?S)"
    using t [THEN conjunct2, THEN conjunct1] by (simp add: social_stats_def)
  have c3: "epidemic_stats [?e0, ?e1] = epidemic_stats [?f0, ?f1]"
    using t [THEN conjunct2, THEN conjunct2, THEN conjunct1] by simp
  have c4: "social_stats [?s0, ?s1] = social_stats [?t0, ?t1]"
    using t [THEN conjunct2, THEN conjunct2, THEN conjunct2] by simp
  show ?thesis
    by (rule conjI [OF c1 conjI [OF c2 conjI [OF c3 c4]]])
qed

end
